theory Spec2Isabelle
  imports Complex_Main "HOL-Library.AList"
begin

section \<open>The object tracker (tracker.py)\<close>

subsection \<open>Data\<close>

text \<open>
  A bounding box is the tuple \<open>(x1, y1, x2, y2)\<close> of pixel coordinates the detector
  produces with \<open>map(int, ...)\<close>; a centroid is the pair \<open>(cx, cy)\<close>. A tracked
  object is the dict with the keys \<open>'centroid'\<close>, \<open>'bbox'\<close> and \<open>'face_id'\<close>; a
  detection the dict with \<open>'bbox'\<close> and \<open>'confidence'\<close>.
\<close>

type_synonym bbox = "int \<times> int \<times> int \<times> int"
type_synonym centroid = "int \<times> int"

record track =
  centroid :: centroid
  bbox :: bbox
  face_id :: "string option"

record detection =
  det_bbox :: bbox
  det_confidence :: real

text \<open>
  The tracker object. Python dicts keep insertion order, and \<open>update\<close> reads
  \<open>list(self.objects.keys())\<close> to number the rows of the distance matrix, so both
  dicts are association lists: \<open>AList.update\<close> overwrites in place or appends,
  \<open>AList.delete\<close> removes, \<open>map_of\<close> looks up.
\<close>

record tracker =
  next_object_id :: int
  objects :: "(int \<times> track) list"
  disappeared :: "(int \<times> int) list"
  max_disappeared :: int
  face_id_map :: "(int \<times> string) list"

datatype py_error = KeyError | ZeroDivisionError

text \<open>
  A method either returns, or raises and leaves behind the tracker as mutated so far:
  \<open>Inl (e, s)\<close> is the exception \<open>e\<close> with the tracker \<open>s\<close> it left, \<open>Inr r\<close> the
  normal result.
\<close>

type_synonym 'a outcome = "(py_error \<times> tracker) + 'a"

definition init_tracker :: "int \<Rightarrow> tracker" where
  "init_tracker md =
     \<lparr>next_object_id = 0, objects = [], disappeared = [], max_disappeared = md,
      face_id_map = []\<rparr>"

subsection \<open>register, deregister\<close>

definition register :: "tracker \<Rightarrow> centroid \<Rightarrow> bbox \<Rightarrow> int \<times> tracker" where
  "register s c b =
     (let s1 = s\<lparr>objects :=
                  AList.update (next_object_id s) \<lparr>centroid = c, bbox = b, face_id = None\<rparr>
                    (objects s)\<rparr>;
          s2 = s1\<lparr>disappeared := AList.update (next_object_id s1) 0 (disappeared s1)\<rparr>;
          s3 = s2\<lparr>next_object_id := next_object_id s2 + 1\<rparr>
      in (next_object_id s3 - 1, s3))"

text \<open>\<open>del d[k]\<close> raises KeyError on a missing key, also on a defaultdict.\<close>

definition deregister :: "tracker \<Rightarrow> int \<Rightarrow> tracker outcome" where
  "deregister s object_id =
     (if map_of (objects s) object_id = None then Inl (KeyError, s)
      else let s1 = s\<lparr>objects := AList.delete object_id (objects s)\<rparr> in
        if map_of (disappeared s1) object_id = None then Inl (KeyError, s1)
        else let s2 = s1\<lparr>disappeared := AList.delete object_id (disappeared s1)\<rparr> in
          if map_of (face_id_map s2) object_id \<noteq> None
          then Inr (s2\<lparr>face_id_map := AList.delete object_id (face_id_map s2)\<rparr>)
          else Inr s2)"

subsection \<open>update\<close>

text \<open>
  \<open>int((x1 + x2) / 2)\<close>: true division followed by truncation towards zero. On pixel
  coordinates the float quotient is exact, so the value is the integer quotient
  rounded towards zero.
\<close>

definition py_int_half :: "int \<Rightarrow> int" where
  "py_int_half a = (if 0 \<le> a then a div 2 else - ((- a) div 2))"

definition centroid_of :: "bbox \<Rightarrow> centroid" where
  "centroid_of b = (case b of (x1, y1, x2, y2) \<Rightarrow> (py_int_half (x1 + x2), py_int_half (y1 + y2)))"

text \<open>
  \<open>scipy.spatial.distance.cdist\<close> fills \<open>D\<close> with Euclidean distances. The code only
  compares entries of \<open>D\<close> with each other (\<open>min\<close>, \<open>argmin\<close>, \<open>argsort\<close>) and with the
  constant 50; the square root is strictly monotone, so the model keeps the squared
  distance, an exact integer, and compares it with \<open>50\<^sup>2 = 2500\<close> (lemmas
  \<open>euclid_le_iff\<close> and \<open>euclid_gate_iff\<close> below).
\<close>

definition dist_sq :: "centroid \<Rightarrow> centroid \<Rightarrow> int" where
  "dist_sq p q = (fst p - fst q) * (fst p - fst q) + (snd p - snd q) * (snd p - snd q)"

definition euclid :: "centroid \<Rightarrow> centroid \<Rightarrow> real" where
  "euclid p q = sqrt (real_of_int (dist_sq p q))"

definition cdist :: "centroid list \<Rightarrow> centroid list \<Rightarrow> int list list" where
  "cdist ps qs = map (\<lambda>p. map (\<lambda>q. dist_sq p q) qs) ps"

text \<open>\<open>argmin\<close> returns the first index of the minimum.\<close>

fun first_index :: "'a \<Rightarrow> 'a list \<Rightarrow> nat" where
  "first_index x [] = 0"
| "first_index x (y # ys) = (if x = y then 0 else Suc (first_index x ys))"

definition argmin :: "int list \<Rightarrow> nat" where
  "argmin xs = first_index (min_list xs) xs"

text \<open>
  \<open>argsort\<close>: the indices in ascending order of their keys. numpy does not promise an
  order among equal keys; here they keep their index order, as numpy's insertion sort
  of short arrays leaves them. The statements below that mention the row order
  (\<open>assoc_rows\<close>) hold of this order.
\<close>

definition argsort :: "int list \<Rightarrow> nat list" where
  "argsort ks = sort_key (\<lambda>i. ks ! i) [0..<length ks]"

text \<open>
  The body of both ageing loops (lines 39-41 and 91-93):
  \<open>self.disappeared[object_id] += 1\<close> on a \<open>defaultdict(int)\<close>, then the removal test.
\<close>

definition age :: "tracker \<Rightarrow> int \<Rightarrow> tracker outcome" where
  "age s object_id =
     (let c = (case map_of (disappeared s) object_id of None \<Rightarrow> 0 | Some c \<Rightarrow> c) + 1;
          s1 = s\<lparr>disappeared := AList.update object_id c (disappeared s)\<rparr>
      in if c > max_disappeared s1 then deregister s1 object_id else Inr s1)"

fun age_ids :: "int list \<Rightarrow> tracker \<Rightarrow> tracker outcome" where
  "age_ids [] s = Inr s"
| "age_ids (object_id # ids) s =
     (case age s object_id of Inl e \<Rightarrow> Inl e | Inr s1 \<Rightarrow> age_ids ids s1)"

fun register_cols :: "centroid list \<Rightarrow> bbox list \<Rightarrow> nat list \<Rightarrow> tracker \<Rightarrow> tracker" where
  "register_cols ics ibs [] s = s"
| "register_cols ics ibs (col # cols) s =
     register_cols ics ibs cols (snd (register s (ics ! col) (ibs ! col)))"

text \<open>Lines 78-81: the matched track takes the detection's centroid and box.\<close>

definition match_row :: "tracker \<Rightarrow> int \<Rightarrow> centroid \<Rightarrow> bbox \<Rightarrow> tracker outcome" where
  "match_row s object_id c b =
     (case map_of (objects s) object_id of
        None \<Rightarrow> Inl (KeyError, s)
      | Some t \<Rightarrow>
          Inr (s\<lparr>objects := AList.update object_id (t\<lparr>centroid := c, bbox := b\<rparr>) (objects s),
                 disappeared := AList.update object_id 0 (disappeared s)\<rparr>))"

text \<open>The loop of lines 71-84 over \<open>zip(rows, cols)\<close>.\<close>

fun match_loop ::
  "int list list \<Rightarrow> int list \<Rightarrow> centroid list \<Rightarrow> bbox list \<Rightarrow> (nat \<times> nat) list \<Rightarrow>
   nat set \<Rightarrow> nat set \<Rightarrow> tracker \<Rightarrow> (tracker \<times> nat set \<times> nat set) outcome" where
  "match_loop D object_ids ics ibs [] used_rows used_cols s = Inr (s, used_rows, used_cols)"
| "match_loop D object_ids ics ibs ((row, col) # ps) used_rows used_cols s =
     (if row \<in> used_rows \<or> col \<in> used_cols
      then match_loop D object_ids ics ibs ps used_rows used_cols s
      else if D ! row ! col > 2500
      then match_loop D object_ids ics ibs ps used_rows used_cols s
      else case match_row s (object_ids ! row) (ics ! col) (ibs ! col) of
             Inl e \<Rightarrow> Inl e
           | Inr s1 \<Rightarrow>
               match_loop D object_ids ics ibs ps (insert row used_rows) (insert col used_cols) s1)"

text \<open>
  \<open>update\<close>. Python leaves the iteration order of the sets \<open>unused_rows\<close> and
  \<open>unused_cols\<close> open; the two \<open>for\<close> loops over them run here in ascending order.
  Ageing two different tracks commutes, and the order of the registrations only
  decides which of the consecutive fresh ids goes to which unmatched detection.
\<close>

definition update :: "tracker \<Rightarrow> detection list \<Rightarrow> tracker outcome" where
  "update s detections =
     (if length detections = 0 then age_ids (map fst (disappeared s)) s
      else
        let input_centroids = map (\<lambda>det. centroid_of (det_bbox det)) detections;
            input_bboxes = map det_bbox detections
        in if length (objects s) = 0
           then Inr (register_cols input_centroids input_bboxes [0..<length input_centroids] s)
           else
             let object_ids = map fst (objects s);
                 object_centroids = map (\<lambda>oid_t. centroid (snd oid_t)) (objects s);
                 D = cdist object_centroids input_centroids;
                 rows = argsort (map min_list D);
                 cols = map (\<lambda>row. argmin (D ! row)) rows
             in case match_loop D object_ids input_centroids input_bboxes (zip rows cols) {} {} s of
                  Inl e \<Rightarrow> Inl e
                | Inr (s1, used_rows, used_cols) \<Rightarrow>
                    let unused_rows = filter (\<lambda>row. row \<notin> used_rows) [0..<length D];
                        unused_cols = filter (\<lambda>col. col \<notin> used_cols) [0..<length input_centroids]
                    in (case age_ids (map (\<lambda>row. object_ids ! row) unused_rows) s1 of
                          Inl e \<Rightarrow> Inl e
                        | Inr s2 \<Rightarrow>
                            Inr (register_cols input_centroids input_bboxes unused_cols s2)))"

subsection \<open>assign\_face\_id, get\_face\_id\<close>

definition assign_face_id :: "tracker \<Rightarrow> int \<Rightarrow> string \<Rightarrow> tracker outcome" where
  "assign_face_id s object_id fid =
     (let s1 = s\<lparr>face_id_map := AList.update object_id fid (face_id_map s)\<rparr> in
      case map_of (objects s1) object_id of
        None \<Rightarrow> Inl (KeyError, s1)
      | Some t \<Rightarrow> Inr (s1\<lparr>objects := AList.update object_id (t\<lparr>face_id := Some fid\<rparr>) (objects s1)\<rparr>))"

definition get_face_id :: "tracker \<Rightarrow> int \<Rightarrow> string option" where
  "get_face_id s object_id = map_of (face_id_map s) object_id"

subsection \<open>Derived notions used in the statements\<close>

text \<open>The read \<open>self.disappeared[k]\<close> of the \<open>defaultdict(int)\<close>: 0 for a missing key.\<close>

definition counter :: "tracker \<Rightarrow> int \<Rightarrow> int" where
  "counter s k = (case map_of (disappeared s) k of None \<Rightarrow> 0 | Some c \<Rightarrow> c)"

text \<open>
  What holds of every tracker built by \<open>__init__\<close> and changed only through its
  methods: dict keys are unique, both dicts have the same keys, every key is below
  \<open>next_object_id\<close>, and no counter is negative.
\<close>

definition tracker_inv :: "tracker \<Rightarrow> bool" where
  "tracker_inv s \<longleftrightarrow>
     distinct (map fst (objects s)) \<and> distinct (map fst (disappeared s)) \<and>
     fst ` set (objects s) = fst ` set (disappeared s) \<and>
     (\<forall>k \<in> fst ` set (objects s). k < next_object_id s) \<and>
     (\<forall>c \<in> snd ` set (disappeared s). 0 \<le> c)"

text \<open>A tracker holding the single track 0, used as a concrete input.\<close>

definition tracker_one :: tracker where
  "tracker_one = snd (register (init_tracker 30) (10, 10) (0, 0, 20, 20))"

text \<open>The dict literal \<open>register\<close> stores for a new track.\<close>

definition new_track :: "centroid \<Rightarrow> bbox \<Rightarrow> track" where
  "new_track c b = \<lparr>centroid = c, bbox = b, face_id = None\<rparr>"

text \<open>The removal test of the ageing loops, on the counter as it is before the step.\<close>

definition expired :: "tracker \<Rightarrow> int \<Rightarrow> bool" where
  "expired s k \<longleftrightarrow> counter s k + 1 > max_disappeared s"

text \<open>Successive \<open>update\<close> calls, one detection list per frame; an exception ends the run.\<close>

fun run_updates :: "tracker \<Rightarrow> detection list list \<Rightarrow> tracker outcome" where
  "run_updates s [] = Inr s"
| "run_updates s (detections # rest) =
     (case update s detections of Inl e \<Rightarrow> Inl e | Inr s' \<Rightarrow> run_updates s' rest)"

text \<open>A detection with the given box, for concrete inputs.\<close>

definition det :: "bbox \<Rightarrow> detection" where
  "det b = \<lparr>det_bbox = b, det_confidence = 1\<rparr>"

text \<open>The tracker an outcome leaves, returned or raised.\<close>

definition state_of :: "tracker outcome \<Rightarrow> tracker" where
  "state_of r = (case r of Inl (e, s) \<Rightarrow> s | Inr s \<Rightarrow> s)"

text \<open>A tracker with tracks 0 at (0, 0) and 1 at (100, 100), for concrete inputs.\<close>

definition two_tracks :: tracker where
  "two_tracks =
     snd (register (snd (register (init_tracker 2) (0, 0) (-1, -1, 1, 1))) (100, 100) (99, 99, 101, 101))"

text \<open>
  The ids given to the tracks registered during a run of \<open>update\<close> calls, in the order
  of registration: a new key is appended to the dict, and \<open>update\<close> registers last, so
  these are the keys of \<open>objects\<close> after the call that were not keys before it.
\<close>

fun assigned_ids :: "tracker \<Rightarrow> detection list list \<Rightarrow> int list" where
  "assigned_ids s [] = []"
| "assigned_ids s (detections # rest) =
     (case update s detections of
        Inl e \<Rightarrow> []
      | Inr s' \<Rightarrow>
          filter (\<lambda>k. map_of (objects s) k = None) (map fst (objects s')) @ assigned_ids s' rest)"

subsection \<open>The association step, seen as a pure matching\<close>

text \<open>
  The pairs the loop of lines 71-84 accepts, without the tracker: the same tests on
  \<open>used_rows\<close>, \<open>used_cols\<close> and the gate, in the same order. \<open>matched\<close> is what
  lines 78-81 do to a track that is present, and \<open>apply_matches\<close> replays the accepted
  pairs; \<open>match_loop_result\<close> shows that the loop computes exactly this. The remaining
  definitions name the values \<open>update\<close> computes on the way: the distance matrix, the
  row order, the accepted pairs, the rows and columns left over.
\<close>

fun matched_pairs :: "int list list \<Rightarrow> (nat \<times> nat) list \<Rightarrow> nat set \<Rightarrow> nat set \<Rightarrow> (nat \<times> nat) list" where
  "matched_pairs D [] used_rows used_cols = []"
| "matched_pairs D ((row, col) # ps) used_rows used_cols =
     (if row \<in> used_rows \<or> col \<in> used_cols then matched_pairs D ps used_rows used_cols
      else if D ! row ! col > 2500 then matched_pairs D ps used_rows used_cols
      else (row, col) # matched_pairs D ps (insert row used_rows) (insert col used_cols))"

definition matched :: "tracker \<Rightarrow> int \<Rightarrow> centroid \<Rightarrow> bbox \<Rightarrow> tracker" where
  "matched s k c b =
     s\<lparr>objects := map (\<lambda>p. if fst p = k then (k, (snd p)\<lparr>centroid := c, bbox := b\<rparr>) else p) (objects s),
       disappeared := AList.update k 0 (disappeared s)\<rparr>"

fun apply_matches :: "int list \<Rightarrow> centroid list \<Rightarrow> bbox list \<Rightarrow> (nat \<times> nat) list \<Rightarrow> tracker \<Rightarrow> tracker" where
  "apply_matches ids ics ibs [] s = s"
| "apply_matches ids ics ibs ((row, col) # ps) s =
     apply_matches ids ics ibs ps (matched s (ids ! row) (ics ! col) (ibs ! col))"

definition assoc_D :: "tracker \<Rightarrow> detection list \<Rightarrow> int list list" where
  "assoc_D s detections =
     cdist (map (\<lambda>oid_t. centroid (snd oid_t)) (objects s))
           (map (\<lambda>det. centroid_of (det_bbox det)) detections)"

definition assoc_rows :: "tracker \<Rightarrow> detection list \<Rightarrow> nat list" where
  "assoc_rows s detections = argsort (map min_list (assoc_D s detections))"

definition matches :: "tracker \<Rightarrow> detection list \<Rightarrow> (nat \<times> nat) list" where
  "matches s detections =
     matched_pairs (assoc_D s detections)
       (zip (assoc_rows s detections)
            (map (\<lambda>row. argmin (assoc_D s detections ! row)) (assoc_rows s detections))) {} {}"

definition unused_rows :: "tracker \<Rightarrow> detection list \<Rightarrow> nat list" where
  "unused_rows s detections =
     filter (\<lambda>row. row \<notin> fst ` set (matches s detections)) [0..<length (objects s)]"

definition unused_cols :: "tracker \<Rightarrow> detection list \<Rightarrow> nat list" where
  "unused_cols s detections =
     filter (\<lambda>col. col \<notin> snd ` set (matches s detections)) [0..<length detections]"

definition input_centroids :: "detection list \<Rightarrow> centroid list" where
  "input_centroids detections = map (\<lambda>det. centroid_of (det_bbox det)) detections"

definition matched_state :: "tracker \<Rightarrow> detection list \<Rightarrow> tracker" where
  "matched_state s detections =
     apply_matches (map fst (objects s)) (input_centroids detections) (map det_bbox detections)
       (matches s detections) s"

definition unmatched_ids :: "tracker \<Rightarrow> detection list \<Rightarrow> int list" where
  "unmatched_ids s detections = map (\<lambda>row. map fst (objects s) ! row) (unused_rows s detections)"

subsection \<open>The global greedy matching of the specification\<close>

text \<open>
  This definition follows the words of the specification (design notes), not the
  source: build the full distance matrix, list all (row, column) candidates, sort them
  by distance ascending (stably, from row-major order), and accept every candidate
  whose row and column are both still free.
\<close>

definition candidates :: "int list list \<Rightarrow> (nat \<times> nat) list" where
  "candidates D = concat (map (\<lambda>r. map (\<lambda>c. (r, c)) [0..<length (D ! r)]) [0..<length D])"

definition sorted_candidates :: "int list list \<Rightarrow> (nat \<times> nat) list" where
  "sorted_candidates D = sort_key (\<lambda>p. D ! fst p ! snd p) (candidates D)"

fun accept_free :: "(nat \<times> nat) list \<Rightarrow> nat set \<Rightarrow> nat set \<Rightarrow> (nat \<times> nat) list" where
  "accept_free [] used_rows used_cols = []"
| "accept_free ((row, col) # ps) used_rows used_cols =
     (if row \<in> used_rows \<or> col \<in> used_cols then accept_free ps used_rows used_cols
      else (row, col) # accept_free ps (insert row used_rows) (insert col used_cols))"

definition spec_global_greedy :: "int list list \<Rightarrow> (nat \<times> nat) list" where
  "spec_global_greedy D = accept_free (sorted_candidates D) {} {}"

text \<open>
  The order of the sorted candidate list: by distance, and among equal distances in
  row-major order (the sort is stable); \<open>sorted_candidates_precedes\<close> below shows that
  \<open>sorted_candidates\<close> is sorted by it.
\<close>

definition row_major :: "nat \<times> nat \<Rightarrow> nat \<times> nat \<Rightarrow> bool" where
  "row_major p q \<longleftrightarrow> fst p < fst q \<or> (fst p = fst q \<and> snd p < snd q)"

definition precedes :: "int list list \<Rightarrow> nat \<times> nat \<Rightarrow> nat \<times> nat \<Rightarrow> bool" where
  "precedes D p q \<longleftrightarrow>
     D ! fst p ! snd p < D ! fst q ! snd q \<or>
     (D ! fst p ! snd p = D ! fst q ! snd q \<and>
      (fst p < fst q \<or> (fst p = fst q \<and> snd p < snd q)))"

text \<open>
  No track that the source leaves unmatched has an alternative: every detection is
  matched by the source to a track that comes before the unmatched one for this
  detection, strictly nearer, or as near and with a smaller row index.
\<close>

definition no_free_alternative :: "tracker \<Rightarrow> detection list \<Rightarrow> bool" where
  "no_free_alternative s detections \<longleftrightarrow>
     (\<forall>r \<in> set (unused_rows s detections). \<forall>c \<in> set [0..<length detections].
        \<exists>w \<in> set [0..<length (objects s)].
          (w, c) \<in> set (matches s detections) \<and>
          (assoc_D s detections ! w ! c < assoc_D s detections ! r ! c \<or>
           (assoc_D s detections ! w ! c = assoc_D s detections ! r ! c \<and> w < r)))"

text \<open>A tracker with tracks 0 at (0, 0) and 1 at (10, 0), for concrete inputs.\<close>

definition near_tracks :: tracker where
  "near_tracks =
     snd (register (snd (register (init_tracker 30) (0, 0) (-1, -1, 1, 1))) (10, 0) (9, -1, 11, 1))"

subsection \<open>The center of a bounding box\<close>

text \<open>
  \<open>py_int\<close> is Python's \<open>int\<close> on a float: truncation towards zero. The source computes a
  centroid coordinate as \<open>int((x1 + x2) / 2)\<close>; \<open>py_int_half_trunc\<close> below shows that
  \<open>py_int_half\<close> is this composition.
\<close>

definition py_int :: "real \<Rightarrow> int" where
  "py_int x = (if 0 \<le> x then \<lfloor>x\<rfloor> else \<lceil>x\<rceil>)"

text \<open>
  This definition follows the words of the specification, not the source: the center of
  the box \<open>(x1, y1, x2, y2)\<close> is the point \<open>((x1 + x2) / 2, (y1 + y2) / 2)\<close>.
\<close>

definition spec_bbox_center :: "bbox \<Rightarrow> real \<times> real" where
  "spec_bbox_center b = (case b of (x1, y1, x2, y2) \<Rightarrow>
     (real_of_int (x1 + x2) / 2, real_of_int (y1 + y2) / 2))"

section \<open>The frame processing loop (main.py)\<close>

subsection \<open>Data\<close>

text \<open>
  An embedding is opaque to the orchestrator: it is only handed from
  \<open>get_embedding\<close> to \<open>find_match\<close>, \<open>register_face\<close> and \<open>known_embeddings\<close>, so it is a
  number here. A call of \<open>database.log_event\<close> is recorded with the identity, the kind,
  the box the image was cut from and the boolean the call returned (\<open>False\<close> when the
  insert raised); \<open>process_frame\<close> discards that boolean.
\<close>

type_synonym embedding = nat

datatype event_type = Entry | Exit

record event =
  ev_face_id :: string
  ev_type :: event_type
  ev_bbox :: bbox
  ev_ok :: bool

text \<open>
  What the external collaborators answer while one frame is processed: the detector,
  the recognizer (\<open>find_match\<close> reduced to the matched id; the similarity is only
  logged) and the database. None of them raises: each catches its exceptions.
\<close>

record frame =
  detect_faces :: "detection list"
  get_embedding :: "bbox \<Rightarrow> embedding option"
  find_match :: "embedding \<Rightarrow> (string \<times> embedding) list \<Rightarrow> string option"
  log_event_ok :: "string \<Rightarrow> event_type \<Rightarrow> bool"

text \<open>
  The \<open>FaceTrackingSystem\<close> object. The two Python sets are lists without duplicates
  (\<open>add\<close> is \<open>List.insert\<close>); \<open>db_events\<close> is the sequence of \<open>log_event\<close> calls made so
  far, the only effect on the database the claims speak of.
\<close>

record system =
  frame_count :: int
  skip_frames :: int
  tracker :: tracker
  known_embeddings :: "(string \<times> embedding) list"
  tracked_entries :: "string list"
  tracked_exits :: "string list"
  next_face_id :: nat
  db_events :: "event list"

type_synonym sys_outcome = "(py_error \<times> system) + system"

definition init_system :: "(string \<times> embedding) list \<Rightarrow> int \<Rightarrow> int \<Rightarrow> system" where
  "init_system known skip md =
     \<lparr>frame_count = 0, skip_frames = skip, tracker = init_tracker md,
      known_embeddings = known, tracked_entries = [], tracked_exits = [],
      next_face_id = length known + 1, db_events = []\<rparr>"

subsection \<open>The label of a new face\<close>

text \<open>\<open>f"FACE_{self.next_face_id:04d}"\<close>: decimal digits, zero-padded to width 4.\<close>

definition digit :: "nat \<Rightarrow> char" where
  "digit d = ''0123456789'' ! d"

function decimal :: "nat \<Rightarrow> string" where
  "decimal n = (if n < 10 then [digit n] else decimal (n div 10) @ [digit (n mod 10)])"
  by pat_completeness auto
termination
  by (relation "measure id") auto

declare decimal.simps [simp del]

definition face_label :: "nat \<Rightarrow> string" where
  "face_label n = ''FACE_'' @ replicate (4 - length (decimal n)) (CHR ''0'') @ decimal n"

subsection \<open>process\_frame\<close>

text \<open>
  Lines 119-162, for one item of \<open>tracked_objects.items()\<close>. The loop changes no key of
  the dict and touches only the item's own track, so the item read at the start of
  the loop is the item the iteration sees.
\<close>

definition resolve_object ::
  "frame \<Rightarrow> detection list \<Rightarrow> system \<Rightarrow> int \<times> track \<Rightarrow> sys_outcome" where
  "resolve_object f detections s item =
     (case item of (obj_id, obj_data) \<Rightarrow>
        if face_id obj_data = None \<and> length detections > 0 then
          (case get_embedding f (bbox obj_data) of
             None \<Rightarrow> Inr s
           | Some emb \<Rightarrow>
               let (fid, s1) =
                     (case find_match f emb (known_embeddings s) of
                        Some matched_id \<Rightarrow> (matched_id, s)
                      | None \<Rightarrow>
                          (face_label (next_face_id s),
                           s\<lparr>next_face_id := next_face_id s + 1,
                             known_embeddings :=
                               AList.update (face_label (next_face_id s)) emb (known_embeddings s)\<rparr>))
               in (case assign_face_id (tracker s1) obj_id fid of
                     Inl (e, t) \<Rightarrow> Inl (e, s1\<lparr>tracker := t\<rparr>)
                   | Inr t \<Rightarrow>
                       let s2 = s1\<lparr>tracker := t\<rparr> in
                       if fid \<notin> set (tracked_entries s2)
                       then Inr (s2\<lparr>db_events := db_events s2 @
                                      [\<lparr>ev_face_id = fid, ev_type = Entry, ev_bbox = bbox obj_data,
                                        ev_ok = log_event_ok f fid Entry\<rparr>],
                                    tracked_entries := List.insert fid (tracked_entries s2)\<rparr>)
                       else Inr s2))
        else Inr s)"

fun resolve_all :: "frame \<Rightarrow> detection list \<Rightarrow> (int \<times> track) list \<Rightarrow> system \<Rightarrow> sys_outcome" where
  "resolve_all f detections [] s = Inr s"
| "resolve_all f detections (item # items) s =
     (case resolve_object f detections s item of
        Inl e \<Rightarrow> Inl e
      | Inr s1 \<Rightarrow> resolve_all f detections items s1)"

text \<open>Lines 165-168: the identities carried by a track; \<open>None\<close> and \<open>""\<close> are falsy.\<close>

definition current_face_ids :: "system \<Rightarrow> string list" where
  "current_face_ids s =
     concat (map (\<lambda>item. case face_id (snd item) of
                             None \<Rightarrow> []
                           | Some fid \<Rightarrow> if fid = [] then [] else [fid])
                 (objects (tracker s)))"

text \<open>
  Line 171: \<open>self.tracked_entries - current_face_ids - self.tracked_exits\<close>. The loop
  over this set runs here in the order of \<open>tracked_entries\<close>.
\<close>

definition exited_faces :: "system \<Rightarrow> string list" where
  "exited_faces s =
     filter (\<lambda>fid. fid \<notin> set (current_face_ids s) \<and> fid \<notin> set (tracked_exits s))
       (tracked_entries s)"

text \<open>
  Lines 174-186, for one \<open>face_id\<close> of \<open>exited_faces\<close>: the first track of the current
  mapping that carries the identity, if there is one.
\<close>

definition exit_face :: "frame \<Rightarrow> system \<Rightarrow> string \<Rightarrow> system" where
  "exit_face f s fid =
     (case find (\<lambda>item. face_id (snd item) = Some fid) (objects (tracker s)) of
        None \<Rightarrow> s
      | Some item \<Rightarrow>
          s\<lparr>db_events := db_events s @
               [\<lparr>ev_face_id = fid, ev_type = Exit, ev_bbox = bbox (snd item),
                 ev_ok = log_event_ok f fid Exit\<rparr>],
            tracked_exits := List.insert fid (tracked_exits s)\<rparr>)"

fun exit_all :: "frame \<Rightarrow> string list \<Rightarrow> system \<Rightarrow> system" where
  "exit_all f [] s = s"
| "exit_all f (fid # fids) s = exit_all f fids (exit_face f s fid)"

text \<open>
  \<open>process_frame\<close>. \<open>frame_count % (skip_frames + 1)\<close> raises ZeroDivisionError when
  \<open>skip_frames = -1\<close>; Python's \<open>%\<close> and \<open>mod\<close> agree on integers. The returned
  \<open>tracked_objects\<close> is \<open>objects (tracker s)\<close> of the result.
\<close>

definition process_frame :: "system \<Rightarrow> frame \<Rightarrow> sys_outcome" where
  "process_frame s f =
     (let s1 = s\<lparr>frame_count := frame_count s + 1\<rparr> in
      if skip_frames s1 + 1 = 0 then Inl (ZeroDivisionError, s1)
      else
        let detections =
              (if frame_count s1 mod (skip_frames s1 + 1) = 0 then detect_faces f else [])
        in (case update (tracker s1) detections of
              Inl (e, t) \<Rightarrow> Inl (e, s1\<lparr>tracker := t\<rparr>)
            | Inr t \<Rightarrow>
                (case resolve_all f detections (objects t) (s1\<lparr>tracker := t\<rparr>) of
                   Inl e \<Rightarrow> Inl e
                 | Inr s3 \<Rightarrow> Inr (exit_all f (exited_faces s3) s3))))"

text \<open>The loop of \<open>run\<close>, one frame after the other; an exception ends it.\<close>

fun run_frames :: "system \<Rightarrow> frame list \<Rightarrow> sys_outcome" where
  "run_frames s [] = Inr s"
| "run_frames s (f # fs) =
     (case process_frame s f of Inl e \<Rightarrow> Inl e | Inr s' \<Rightarrow> run_frames s' fs)"

definition sys_of :: "sys_outcome \<Rightarrow> system" where
  "sys_of r = (case r of Inl (e, s) \<Rightarrow> s | Inr s \<Rightarrow> s)"

text \<open>
  Frames for concrete inputs: one face seen, with embedding 7, whose \<open>log_event\<close>
  calls return the given boolean, and a frame without detections. The recognizer
  matches an embedding with the first known identity that has the same embedding.
\<close>

definition same_embedding :: "embedding \<Rightarrow> (string \<times> embedding) list \<Rightarrow> string option" where
  "same_embedding emb known = map_option fst (find (\<lambda>p. snd p = emb) known)"

definition frame_one_face :: "bool \<Rightarrow> frame" where
  "frame_one_face ok =
     \<lparr>detect_faces = [det (0, 0, 20, 20)], get_embedding = (\<lambda>b. Some 7),
      find_match = same_embedding, log_event_ok = (\<lambda>fid kind. ok)\<rparr>"

definition frame_empty :: frame where
  "frame_empty =
     \<lparr>detect_faces = [], get_embedding = (\<lambda>b. None),
      find_match = same_embedding, log_event_ok = (\<lambda>fid kind. True)\<rparr>"

text \<open>The identities of the entry and of the exit events among \<open>log_event\<close> calls.\<close>

definition entry_faces :: "event list \<Rightarrow> string set" where
  "entry_faces evs = ev_face_id ` {e \<in> set evs. ev_type e = Entry}"

definition exit_faces :: "event list \<Rightarrow> string set" where
  "exit_faces evs = ev_face_id ` {e \<in> set evs. ev_type e = Exit}"

text \<open>
  What one \<open>process_frame\<close> call does to the event log and the two sets, \<open>new\<close> being
  the \<open>log_event\<close> calls it makes.
\<close>

definition frame_effect :: "system \<Rightarrow> system \<Rightarrow> event list \<Rightarrow> bool" where
  "frame_effect s s' new \<longleftrightarrow>
     db_events s' = db_events s @ new \<and>
     (\<forall>e \<in> set new. ev_type e = Entry \<longrightarrow> ev_face_id e \<notin> set (tracked_entries s)) \<and>
     (\<forall>e \<in> set new. ev_type e = Exit \<longrightarrow> ev_face_id e = []) \<and>
     set (tracked_entries s') = set (tracked_entries s) \<union> entry_faces new \<and>
     set (tracked_exits s') = set (tracked_exits s) \<union> exit_faces new \<and>
     exit_faces new \<subseteq> set (tracked_entries s')"

section \<open>Facts about the dicts and the tracker methods\<close>

lemma update_fresh: "k \<notin> fst ` set al \<Longrightarrow> AList.update k v al = al @ [(k, v)]"
  by (induction al) auto

lemma update_present:
  "distinct (map fst al) \<Longrightarrow> k \<in> fst ` set al \<Longrightarrow>
   AList.update k v al = map (\<lambda>p. if fst p = k then (k, v) else p) al"
proof (induction al)
  case Nil
  then show ?case by simp
next
  case (Cons p al)
  show ?case
  proof (cases "fst p = k")
    case True
    with Cons.prems have "k \<notin> fst ` set al" by auto
    then have "map (\<lambda>p. if fst p = k then (k, v) else p) al = al"
      by (intro map_idI) auto
    with True show ?thesis by simp
  next
    case False
    with Cons show ?thesis by auto
  qed
qed

lemma map_of_None_iff: "map_of al k = None \<longleftrightarrow> k \<notin> fst ` set al"
  by (simp add: map_of_eq_None_iff)

lemma register_fields [simp]:
  "fst (register s c b) = next_object_id s"
  "next_object_id (snd (register s c b)) = next_object_id s + 1"
  "objects (snd (register s c b)) =
     AList.update (next_object_id s) \<lparr>centroid = c, bbox = b, face_id = None\<rparr> (objects s)"
  "disappeared (snd (register s c b)) = AList.update (next_object_id s) 0 (disappeared s)"
  "max_disappeared (snd (register s c b)) = max_disappeared s"
  "face_id_map (snd (register s c b)) = face_id_map s"
  by (simp_all add: register_def Let_def)

lemma snd_set_update: "snd ` set (AList.update k v al) \<subseteq> insert v (snd ` set al)"
  by (induction al) auto

lemma register_inv:
  assumes "tracker_inv s"
  shows "tracker_inv (snd (register s c b))"
proof -
  let ?s' = "snd (register s c b)"
  from assms have d1: "distinct (map fst (objects s))" and d2: "distinct (map fst (disappeared s))"
    and eq: "fst ` set (objects s) = fst ` set (disappeared s)"
    and lt: "\<forall>k \<in> fst ` set (objects s). k < next_object_id s"
    and nn: "\<forall>c \<in> snd ` set (disappeared s). 0 \<le> c"
    unfolding tracker_inv_def by blast+
  have 1: "distinct (map fst (objects ?s'))" using d1 by (simp add: distinct_update)
  have 2: "distinct (map fst (disappeared ?s'))" using d2 by (simp add: distinct_update)
  have 3: "fst ` set (objects ?s') = fst ` set (disappeared ?s')"
    using eq by (simp add: dom_update)
  have 4: "\<forall>k \<in> fst ` set (objects ?s'). k < next_object_id ?s'"
    using lt by (auto simp: dom_update)
  have 5: "\<forall>c \<in> snd ` set (disappeared ?s'). 0 \<le> c"
  proof
    fix c assume "c \<in> snd ` set (disappeared ?s')"
    then have "c \<in> insert 0 (snd ` set (disappeared s))"
      using snd_set_update[of "next_object_id s" 0 "disappeared s"] by auto
    with nn show "0 \<le> c" by auto
  qed
  from 1 2 3 4 5 show ?thesis unfolding tracker_inv_def by blast
qed


lemma deregister_present:
  assumes "object_id \<in> fst ` set (objects s)" "object_id \<in> fst ` set (disappeared s)"
  shows "deregister s object_id =
    Inr (s\<lparr>objects := AList.delete object_id (objects s),
            disappeared := AList.delete object_id (disappeared s),
            face_id_map := AList.delete object_id (face_id_map s)\<rparr>)"
proof -
  have a: "map_of (objects s) object_id \<noteq> None" "map_of (disappeared s) object_id \<noteq> None"
    using assms by (simp_all add: map_of_None_iff)
  show ?thesis
  proof (cases "map_of (face_id_map s) object_id = None")
    case True
    then have "AList.delete object_id (face_id_map s) = face_id_map s"
      by (simp add: map_of_None_iff)
    with a True show ?thesis by (simp add: deregister_def Let_def)
  next
    case False
    with a show ?thesis by (simp add: deregister_def Let_def)
  qed
qed

lemma deregister_absent:
  "object_id \<notin> fst ` set (objects s) \<Longrightarrow> deregister s object_id = Inl (KeyError, s)"
  by (simp add: deregister_def map_of_None_iff)

lemma age_present:
  assumes "object_id \<in> fst ` set (objects s)"
  shows "age s object_id =
    Inr (if counter s object_id + 1 > max_disappeared s
         then s\<lparr>objects := AList.delete object_id (objects s),
                 disappeared := AList.delete object_id (disappeared s),
                 face_id_map := AList.delete object_id (face_id_map s)\<rparr>
         else s\<lparr>disappeared := AList.update object_id (counter s object_id + 1) (disappeared s)\<rparr>)"
proof -
  let ?c = "counter s object_id + 1"
  let ?s1 = "s\<lparr>disappeared := AList.update object_id ?c (disappeared s)\<rparr>"
  have age: "age s object_id = (if ?c > max_disappeared s then deregister ?s1 object_id else Inr ?s1)"
    by (simp add: age_def Let_def counter_def)
  have "object_id \<in> fst ` set (disappeared ?s1)" by (simp add: dom_update)
  with assms have "deregister ?s1 object_id =
    Inr (?s1\<lparr>objects := AList.delete object_id (objects ?s1),
            disappeared := AList.delete object_id (disappeared ?s1),
            face_id_map := AList.delete object_id (face_id_map ?s1)\<rparr>)"
    by (intro deregister_present) simp_all
  then show ?thesis unfolding age by (simp add: delete_update_same)
qed

lemma update_keys_present:
  "k \<in> fst ` set al \<Longrightarrow> map fst (AList.update k v al) = map fst al"
  by (simp add: update_keys)

subsection \<open>Registering a list of detections\<close>

lemma register_cols_next [simp]:
  "next_object_id (register_cols ics ibs cols s) = next_object_id s + int (length cols)"
  by (induction cols arbitrary: s) simp_all

lemma register_cols_max [simp]:
  "max_disappeared (register_cols ics ibs cols s) = max_disappeared s"
  by (induction cols arbitrary: s) simp_all

lemma register_cols_face_id_map [simp]:
  "face_id_map (register_cols ics ibs cols s) = face_id_map s"
  by (induction cols arbitrary: s) simp_all

lemma register_cols_inv: "tracker_inv s \<Longrightarrow> tracker_inv (register_cols ics ibs cols s)"
  by (induction cols arbitrary: s) (simp_all add: register_inv)

lemma register_cols_objects:
  "\<forall>k \<in> fst ` set (objects s). k < next_object_id s \<Longrightarrow>
   objects (register_cols ics ibs cols s) =
     objects s @ map (\<lambda>i. (next_object_id s + int i, new_track (ics ! (cols ! i)) (ibs ! (cols ! i))))
                  [0..<length cols]"
proof (induction cols arbitrary: s)
  case Nil
  then show ?case by simp
next
  case (Cons col cols)
  let ?s1 = "snd (register s (ics ! col) (ibs ! col))"
  from Cons.prems have fresh: "next_object_id s \<notin> fst ` set (objects s)" by auto
  have o1: "objects ?s1 = objects s @ [(next_object_id s, new_track (ics ! col) (ibs ! col))]"
    using fresh by (simp add: update_fresh new_track_def)
  have "\<forall>k \<in> fst ` set (objects ?s1). k < next_object_id ?s1"
    using Cons.prems unfolding o1 by auto
  from Cons.IH[OF this]
  have "objects (register_cols ics ibs cols ?s1) =
     objects ?s1 @ map (\<lambda>i. (next_object_id ?s1 + int i, new_track (ics ! (cols ! i)) (ibs ! (cols ! i))))
                  [0..<length cols]" .
  moreover have "map (\<lambda>i. (next_object_id s + int i,
                    new_track (ics ! ((col # cols) ! i)) (ibs ! ((col # cols) ! i))))
                  [0..<length (col # cols)] =
     (next_object_id s, new_track (ics ! col) (ibs ! col)) #
       map (\<lambda>i. (next_object_id ?s1 + int i, new_track (ics ! (cols ! i)) (ibs ! (cols ! i))))
                  [0..<length cols]"
    by (simp add: map_upt_Suc add.commute add.left_commute del: upt_Suc)
  ultimately show ?case using o1 by simp
qed

lemma register_cols_disappeared:
  "map_of (disappeared (register_cols ics ibs cols s)) k =
     (if next_object_id s \<le> k \<and> k < next_object_id s + int (length cols) then Some 0
      else map_of (disappeared s) k)"
  by (induction cols arbitrary: s) (auto simp: update_conv')

lemma py_int_half_nonneg: "0 \<le> a \<Longrightarrow> py_int_half a = a div 2"
  by (simp add: py_int_half_def)

lemma py_int_half_near: "\<bar>2 * py_int_half a - a\<bar> \<le> 1"
  unfolding py_int_half_def by (cases "0 \<le> a") presburger+

lemma update_no_tracks:
  assumes "objects s = []" "detections \<noteq> []"
  shows "update s detections =
    Inr (register_cols (map (\<lambda>det. centroid_of (det_bbox det)) detections) (map det_bbox detections)
           [0..<length detections] s)"
  using assms by (simp add: update_def Let_def)

subsection \<open>The ageing loops\<close>

lemma delete_filter: "AList.delete k al = filter (\<lambda>p. fst p \<noteq> k) al"
  by (induction al) auto

lemma dom_delete: "fst ` set (AList.delete k al) = fst ` set al - {k}"
  by (auto simp: delete_filter)

lemma snd_set_delete: "snd ` set (AList.delete k al) \<subseteq> snd ` set al"
  by (auto simp: delete_filter)

lemma inv_fields:
  assumes "tracker_inv s"
  shows "distinct (map fst (objects s))" "distinct (map fst (disappeared s))"
    "fst ` set (objects s) = fst ` set (disappeared s)"
    "\<And>k. k \<in> fst ` set (objects s) \<Longrightarrow> k < next_object_id s"
    "\<And>c. c \<in> snd ` set (disappeared s) \<Longrightarrow> 0 \<le> c"
  using assms unfolding tracker_inv_def by blast+

lemma invI:
  assumes "distinct (map fst (objects s))" "distinct (map fst (disappeared s))"
    "fst ` set (objects s) = fst ` set (disappeared s)"
    "\<And>k. k \<in> fst ` set (objects s) \<Longrightarrow> k < next_object_id s"
    "\<And>c. c \<in> snd ` set (disappeared s) \<Longrightarrow> 0 \<le> c"
  shows "tracker_inv s"
  using assms unfolding tracker_inv_def by blast

lemma counter_nonneg: "tracker_inv s \<Longrightarrow> 0 \<le> counter s k"
proof -
  assume inv: "tracker_inv s"
  show ?thesis
  proof (cases "map_of (disappeared s) k")
    case None
    then show ?thesis by (simp add: counter_def)
  next
    case (Some c)
    then have "(k, c) \<in> set (disappeared s)" by (rule map_of_SomeD)
    then have "c \<in> snd ` set (disappeared s)" by force
    with inv_fields(5)[OF inv] Some show ?thesis by (simp add: counter_def)
  qed
qed

lemma age_step:
  assumes inv: "tracker_inv s" and k: "k \<in> fst ` set (objects s)"
  shows "\<exists>s1. age s k = Inr s1 \<and>
     objects s1 = filter (\<lambda>p. \<not> (fst p = k \<and> expired s k)) (objects s) \<and>
     face_id_map s1 = filter (\<lambda>p. \<not> (fst p = k \<and> expired s k)) (face_id_map s) \<and>
     (\<forall>k'. map_of (disappeared s1) k' =
        (if k' = k then (if expired s k then None else Some (counter s k + 1))
         else map_of (disappeared s) k')) \<and>
     next_object_id s1 = next_object_id s \<and> max_disappeared s1 = max_disappeared s \<and>
     tracker_inv s1"
proof (cases "expired s k")
  case True
  let ?s1 = "s\<lparr>objects := AList.delete k (objects s),
                 disappeared := AList.delete k (disappeared s),
                 face_id_map := AList.delete k (face_id_map s)\<rparr>"
  have a: "age s k = Inr ?s1" using age_present[OF k] True by (simp add: expired_def)
  have o: "objects ?s1 = filter (\<lambda>p. \<not> (fst p = k \<and> expired s k)) (objects s)"
    using True by (simp add: delete_filter)
  have f: "face_id_map ?s1 = filter (\<lambda>p. \<not> (fst p = k \<and> expired s k)) (face_id_map s)"
    using True by (simp add: delete_filter)
  have d: "\<forall>k'. map_of (disappeared ?s1) k' =
        (if k' = k then (if expired s k then None else Some (counter s k + 1))
         else map_of (disappeared s) k')"
    using True by (simp add: delete_conv')
  have i: "tracker_inv ?s1"
  proof (rule invI)
    show "distinct (map fst (objects ?s1))" using inv_fields(1)[OF inv] by (simp add: distinct_delete)
    show "distinct (map fst (disappeared ?s1))" using inv_fields(2)[OF inv] by (simp add: distinct_delete)
    show "fst ` set (objects ?s1) = fst ` set (disappeared ?s1)"
      using inv_fields(3)[OF inv] by (simp add: dom_delete)
    show "\<And>k'. k' \<in> fst ` set (objects ?s1) \<Longrightarrow> k' < next_object_id ?s1"
      using inv_fields(4)[OF inv] by (simp add: dom_delete)
    show "\<And>c. c \<in> snd ` set (disappeared ?s1) \<Longrightarrow> 0 \<le> c"
    proof -
      fix c assume "c \<in> snd ` set (disappeared ?s1)"
      then have "c \<in> snd ` set (disappeared s)"
        using snd_set_delete[of k "disappeared s"] by auto
      then show "0 \<le> c" by (rule inv_fields(5)[OF inv])
    qed
  qed
  from a o f d i show ?thesis by simp
next
  case False
  let ?s1 = "s\<lparr>disappeared := AList.update k (counter s k + 1) (disappeared s)\<rparr>"
  have a: "age s k = Inr ?s1" using age_present[OF k] False by (simp add: expired_def)
  have o: "objects ?s1 = filter (\<lambda>p. \<not> (fst p = k \<and> expired s k)) (objects s)"
    using False by simp
  have f: "face_id_map ?s1 = filter (\<lambda>p. \<not> (fst p = k \<and> expired s k)) (face_id_map s)"
    using False by simp
  have d: "\<forall>k'. map_of (disappeared ?s1) k' =
        (if k' = k then (if expired s k then None else Some (counter s k + 1))
         else map_of (disappeared s) k')"
    using False by (simp add: update_conv')
  have i: "tracker_inv ?s1"
  proof (rule invI)
    show "distinct (map fst (objects ?s1))" using inv_fields(1)[OF inv] by simp
    show "distinct (map fst (disappeared ?s1))" using inv_fields(2)[OF inv] by (simp add: distinct_update)
    show "fst ` set (objects ?s1) = fst ` set (disappeared ?s1)"
      using inv_fields(3)[OF inv] k by (auto simp: dom_update)
    show "\<And>k'. k' \<in> fst ` set (objects ?s1) \<Longrightarrow> k' < next_object_id ?s1"
      using inv_fields(4)[OF inv] by simp
    show "\<And>c. c \<in> snd ` set (disappeared ?s1) \<Longrightarrow> 0 \<le> c"
    proof -
      fix c assume "c \<in> snd ` set (disappeared ?s1)"
      then have "c \<in> insert (counter s k + 1) (snd ` set (disappeared s))"
        using snd_set_update[of k "counter s k + 1" "disappeared s"] by auto
      then show "0 \<le> c" using inv_fields(5)[OF inv] counter_nonneg[OF inv, of k] by auto
    qed
  qed
  from a o f d i show ?thesis by simp
qed

lemma age_ids_result:
  assumes "tracker_inv s" "distinct ids" "set ids \<subseteq> fst ` set (objects s)"
  shows "\<exists>s'. age_ids ids s = Inr s' \<and>
     objects s' = filter (\<lambda>p. \<not> (fst p \<in> set ids \<and> expired s (fst p))) (objects s) \<and>
     face_id_map s' = filter (\<lambda>p. \<not> (fst p \<in> set ids \<and> expired s (fst p))) (face_id_map s) \<and>
     (\<forall>k. map_of (disappeared s') k =
        (if k \<in> set ids then (if expired s k then None else Some (counter s k + 1))
         else map_of (disappeared s) k)) \<and>
     next_object_id s' = next_object_id s \<and> max_disappeared s' = max_disappeared s \<and>
     tracker_inv s'"
  using assms
proof (induction ids arbitrary: s)
  case Nil
  then show ?case by simp
next
  case (Cons k ids)
  from Cons.prems have k: "k \<in> fst ` set (objects s)" and kn: "k \<notin> set ids"
    and di: "distinct ids" and sub: "set ids \<subseteq> fst ` set (objects s)" by auto
  from age_step[OF Cons.prems(1) k] obtain s1 where
    a: "age s k = Inr s1" and
    o1: "objects s1 = filter (\<lambda>p. \<not> (fst p = k \<and> expired s k)) (objects s)" and
    f1: "face_id_map s1 = filter (\<lambda>p. \<not> (fst p = k \<and> expired s k)) (face_id_map s)" and
    d1: "\<And>k'. map_of (disappeared s1) k' =
        (if k' = k then (if expired s k then None else Some (counter s k + 1))
         else map_of (disappeared s) k')" and
    n1: "next_object_id s1 = next_object_id s" and m1: "max_disappeared s1 = max_disappeared s" and
    i1: "tracker_inv s1" by blast
  have sub1: "set ids \<subseteq> fst ` set (objects s1)"
    using sub kn unfolding o1 by force
  have ex: "\<And>k'. k' \<noteq> k \<Longrightarrow> expired s1 k' = expired s k'"
    by (simp add: expired_def counter_def d1 m1)
  from Cons.IH[OF i1 di sub1] obtain s' where
    b: "age_ids ids s1 = Inr s'" and
    o2: "objects s' = filter (\<lambda>p. \<not> (fst p \<in> set ids \<and> expired s1 (fst p))) (objects s1)" and
    f2: "face_id_map s' = filter (\<lambda>p. \<not> (fst p \<in> set ids \<and> expired s1 (fst p))) (face_id_map s1)" and
    d2: "\<And>k'. map_of (disappeared s') k' =
        (if k' \<in> set ids then (if expired s1 k' then None else Some (counter s1 k' + 1))
         else map_of (disappeared s1) k')" and
    n2: "next_object_id s' = next_object_id s1" and m2: "max_disappeared s' = max_disappeared s1" and
    i2: "tracker_inv s'" by blast
  have ex': "expired s1 a = expired s a" if "a \<in> set ids" for a
  proof -
    from that kn have "a \<noteq> k" by auto
    then show ?thesis by (rule ex)
  qed
  have r: "age_ids (k # ids) s = Inr s'" using a b by simp
  have o: "objects s' = filter (\<lambda>p. \<not> (fst p \<in> set (k # ids) \<and> expired s (fst p))) (objects s)"
    unfolding o2 o1 filter_filter using kn ex' by (intro filter_cong) auto
  have f: "face_id_map s' = filter (\<lambda>p. \<not> (fst p \<in> set (k # ids) \<and> expired s (fst p))) (face_id_map s)"
    unfolding f2 f1 filter_filter using kn ex' by (intro filter_cong) auto
  have cnt: "counter s1 a = counter s a" if "a \<in> set ids" for a
  proof -
    from that kn have "a \<noteq> k" by auto
    then show ?thesis by (simp add: counter_def d1)
  qed
  have d: "\<forall>k'. map_of (disappeared s') k' =
        (if k' \<in> set (k # ids) then (if expired s k' then None else Some (counter s k' + 1))
         else map_of (disappeared s) k')"
    using kn ex' cnt by (auto simp: d2 d1)
  from r o f d n1 n2 m1 m2 i2 show ?case by simp
qed

subsection \<open>Updates without detections\<close>

lemma init_inv: "tracker_inv (init_tracker md)"
  by (simp add: tracker_inv_def init_tracker_def)

lemma counter_present:
  "map_of (disappeared s) k = Some c \<Longrightarrow> counter s k = c"
  by (simp add: counter_def)

lemma update_empty:
  assumes inv: "tracker_inv s"
  shows "\<exists>s'. update s [] = Inr s' \<and>
     objects s' = filter (\<lambda>p. counter s (fst p) + 1 \<le> max_disappeared s) (objects s) \<and>
     face_id_map s' = filter (\<lambda>p. \<not> (fst p \<in> fst ` set (objects s) \<and> expired s (fst p))) (face_id_map s) \<and>
     (\<forall>k \<in> fst ` set (objects s'). counter s' k = counter s k + 1) \<and>
     next_object_id s' = next_object_id s \<and> max_disappeared s' = max_disappeared s \<and>
     tracker_inv s'"
proof -
  let ?ids = "map fst (disappeared s)"
  have ids: "set ?ids = fst ` set (objects s)" using inv_fields(3)[OF inv] by simp
  have "distinct ?ids" by (rule inv_fields(2)[OF inv])
  moreover have "set ?ids \<subseteq> fst ` set (objects s)" using ids by simp
  ultimately obtain s' where
    r: "age_ids ?ids s = Inr s'" and
    o: "objects s' = filter (\<lambda>p. \<not> (fst p \<in> set ?ids \<and> expired s (fst p))) (objects s)" and
    f: "face_id_map s' = filter (\<lambda>p. \<not> (fst p \<in> set ?ids \<and> expired s (fst p))) (face_id_map s)" and
    d: "\<And>k. map_of (disappeared s') k =
        (if k \<in> set ?ids then (if expired s k then None else Some (counter s k + 1))
         else map_of (disappeared s) k)" and
    n: "next_object_id s' = next_object_id s" and m: "max_disappeared s' = max_disappeared s" and
    i: "tracker_inv s'"
    using age_ids_result[OF inv, of ?ids] by blast
  have u: "update s [] = Inr s'" using r by (simp add: update_def)
  have o': "objects s' = filter (\<lambda>p. counter s (fst p) + 1 \<le> max_disappeared s) (objects s)"
    unfolding o ids by (intro filter_cong) (auto simp: expired_def)
  have f': "face_id_map s' =
      filter (\<lambda>p. \<not> (fst p \<in> fst ` set (objects s) \<and> expired s (fst p))) (face_id_map s)"
    unfolding f ids ..
  have c: "\<forall>k \<in> fst ` set (objects s'). counter s' k = counter s k + 1"
  proof
    fix k assume "k \<in> fst ` set (objects s')"
    then have "k \<in> fst ` set (objects s)" and "\<not> expired s k"
      unfolding o' by (auto simp: expired_def)
    then have "map_of (disappeared s') k = Some (counter s k + 1)"
      using d[of k] ids by simp
    then show "counter s' k = counter s k + 1" by (rule counter_present)
  qed
  from u o' f' c n m i show ?thesis by blast
qed

lemma updates_empty_Suc:
  assumes "tracker_inv s"
  shows "\<exists>s'. run_updates s (replicate (Suc N) []) = Inr s' \<and>
     objects s' = filter (\<lambda>p. counter s (fst p) + 1 + int N \<le> max_disappeared s) (objects s) \<and>
     (\<forall>k \<in> fst ` set (objects s'). counter s' k = counter s k + 1 + int N) \<and>
     next_object_id s' = next_object_id s \<and> max_disappeared s' = max_disappeared s \<and>
     tracker_inv s'"
  using assms
proof (induction N arbitrary: s)
  case 0
  from update_empty[OF 0] show ?case by auto
next
  case (Suc N)
  from update_empty[OF Suc.prems] obtain s1 where
    u: "update s [] = Inr s1" and
    o1: "objects s1 = filter (\<lambda>p. counter s (fst p) + 1 \<le> max_disappeared s) (objects s)" and
    c1: "\<And>k. k \<in> fst ` set (objects s1) \<Longrightarrow> counter s1 k = counter s k + 1" and
    n1: "next_object_id s1 = next_object_id s" and m1: "max_disappeared s1 = max_disappeared s" and
    i1: "tracker_inv s1" by blast
  from Suc.IH[OF i1] obtain s' where
    r: "run_updates s1 (replicate (Suc N) []) = Inr s'" and
    o2: "objects s' = filter (\<lambda>p. counter s1 (fst p) + 1 + int N \<le> max_disappeared s1) (objects s1)" and
    c2: "\<And>k. k \<in> fst ` set (objects s') \<Longrightarrow> counter s' k = counter s1 k + 1 + int N" and
    n2: "next_object_id s' = next_object_id s1" and m2: "max_disappeared s' = max_disappeared s1" and
    i2: "tracker_inv s'" by blast
  have r': "run_updates s (replicate (Suc (Suc N)) []) = Inr s'"
    using u r by simp
  have o2': "objects s' = filter (\<lambda>p. counter s (fst p) + 1 + 1 + int N \<le> max_disappeared s) (objects s1)"
    unfolding o2 m1 
  proof (intro filter_cong refl)
    fix p assume "p \<in> set (objects s1)"
    then have "fst p \<in> fst ` set (objects s1)" by simp
    from c1[OF this]
    show "(counter s1 (fst p) + 1 + int N \<le> max_disappeared s) =
          (counter s (fst p) + 1 + 1 + int N \<le> max_disappeared s)" by simp
  qed
  have o: "objects s' = filter (\<lambda>p. counter s (fst p) + 1 + int (Suc N) \<le> max_disappeared s) (objects s)"
    unfolding o2' o1 filter_filter by (intro filter_cong) auto
  have c: "\<forall>k \<in> fst ` set (objects s'). counter s' k = counter s k + 1 + int (Suc N)"
  proof
    fix k assume k: "k \<in> fst ` set (objects s')"
    then have "k \<in> fst ` set (objects s1)" unfolding o2 by auto
    from c1[OF this] c2[OF k] show "counter s' k = counter s k + 1 + int (Suc N)" by simp
  qed
  from r' o c n1 n2 m1 m2 i2 show ?case by simp
qed

lemma updates_empty_all_removed:
  assumes inv: "tracker_inv s" and N: "int N > max_disappeared s" "0 < N"
  shows "\<exists>s'. run_updates s (replicate N []) = Inr s' \<and> objects s' = [] \<and>
     next_object_id s' = next_object_id s"
proof -
  from N(2) obtain M where M: "N = Suc M" by (cases N) auto
  from updates_empty_Suc[OF inv, of M] obtain s' where
    r: "run_updates s (replicate (Suc M) []) = Inr s'" and
    o: "objects s' = filter (\<lambda>p. counter s (fst p) + 1 + int M \<le> max_disappeared s) (objects s)" and
    n: "next_object_id s' = next_object_id s" by blast
  have "\<not> counter s (fst p) + 1 + int M \<le> max_disappeared s" for p
    using counter_nonneg[OF inv, of "fst p"] N(1) unfolding M by simp
  then have "objects s' = []" unfolding o filter_empty_conv by blast
  with r n show ?thesis unfolding M by blast
qed

subsection \<open>The scenario of the specification\<close>

lemmas tracker_eval =
  update_def age_def deregister_def register_def match_row_def init_tracker_def
  centroid_of_def py_int_half_def cdist_def dist_sq_def argmin_def argsort_def counter_def
  det_def Let_def

lemma scenario_frame1:
  "update (init_tracker 2) [det (0, 0, 20, 20)] =
     Inr \<lparr>next_object_id = 1,
          objects = [(0, \<lparr>centroid = (10, 10), bbox = (0, 0, 20, 20), face_id = None\<rparr>)],
          disappeared = [(0, 0)], max_disappeared = 2, face_id_map = []\<rparr>"
  by (simp add: tracker_eval)

lemma scenario_frame3:
  "run_updates (init_tracker 2) [[det (0, 0, 20, 20)], [], []] =
     Inr \<lparr>next_object_id = 1,
          objects = [(0, \<lparr>centroid = (10, 10), bbox = (0, 0, 20, 20), face_id = None\<rparr>)],
          disappeared = [(0, 2)], max_disappeared = 2, face_id_map = []\<rparr>"
  by (simp add: tracker_eval)

lemma scenario_frame4:
  "run_updates (init_tracker 2) [[det (0, 0, 20, 20)], [], [], []] =
     Inr \<lparr>next_object_id = 1, objects = [], disappeared = [], max_disappeared = 2,
          face_id_map = []\<rparr>"
  by (simp add: tracker_eval)

lemma tracker_one_inv: "tracker_inv tracker_one"
  unfolding tracker_one_def by (intro register_inv init_inv)

subsection \<open>The association step\<close>

lemma map_of_present:
  "k \<in> fst ` set al \<Longrightarrow> \<exists>v. map_of al k = Some v"
  using map_of_None_iff[of al k] by auto

lemma match_row_present:
  assumes "distinct (map fst (objects s))" "k \<in> fst ` set (objects s)"
  shows "match_row s k c b = Inr (matched s k c b)"
proof -
  from map_of_present[OF assms(2)] obtain t where t: "map_of (objects s) k = Some t" by blast
  have "AList.update k (t\<lparr>centroid := c, bbox := b\<rparr>) (objects s) =
        map (\<lambda>p. if fst p = k then (k, t\<lparr>centroid := c, bbox := b\<rparr>) else p) (objects s)"
    using assms by (rule update_present)
  also have "\<dots> = map (\<lambda>p. if fst p = k then (k, (snd p)\<lparr>centroid := c, bbox := b\<rparr>) else p) (objects s)"
  proof (intro map_cong refl)
    fix p assume p: "p \<in> set (objects s)"
    show "(if fst p = k then (k, t\<lparr>centroid := c, bbox := b\<rparr>) else p) =
          (if fst p = k then (k, (snd p)\<lparr>centroid := c, bbox := b\<rparr>) else p)"
    proof (cases "fst p = k")
      case True
      with p have "(k, snd p) \<in> set (objects s)" by (metis prod.collapse)
      with assms(1) have "map_of (objects s) k = Some (snd p)" by simp
      with t have "snd p = t" by simp
      with True show ?thesis by simp
    next
      case False
      then show ?thesis by simp
    qed
  qed
  finally show ?thesis using t by (simp add: match_row_def matched_def)
qed

lemma matched_keys [simp]: "map fst (objects (matched s k c b)) = map fst (objects s)"
  by (simp add: matched_def comp_def if_distrib[of fst] cong: if_cong)

lemma matched_fields [simp]:
  "next_object_id (matched s k c b) = next_object_id s"
  "max_disappeared (matched s k c b) = max_disappeared s"
  "face_id_map (matched s k c b) = face_id_map s"
  by (simp_all add: matched_def)

lemma matched_keys_set: "fst ` set (objects (matched s k c b)) = fst ` set (objects s)"
proof -
  have "set (map fst (objects (matched s k c b))) = set (map fst (objects s))" by simp
  then show ?thesis by (simp only: set_map)
qed

lemma matched_inv:
  assumes inv: "tracker_inv s" and k: "k \<in> fst ` set (objects s)"
  shows "tracker_inv (matched s k c b)"
proof (rule invI)
  show "distinct (map fst (objects (matched s k c b)))" using inv_fields(1)[OF inv] by simp
  show "distinct (map fst (disappeared (matched s k c b)))"
    using inv_fields(2)[OF inv] by (simp add: matched_def distinct_update)
  show "fst ` set (objects (matched s k c b)) = fst ` set (disappeared (matched s k c b))"
    unfolding matched_keys_set using inv_fields(3)[OF inv] k by (auto simp: matched_def dom_update)
  show "\<And>k'. k' \<in> fst ` set (objects (matched s k c b)) \<Longrightarrow> k' < next_object_id (matched s k c b)"
    unfolding matched_keys_set using inv_fields(4)[OF inv] by simp
  show "\<And>x. x \<in> snd ` set (disappeared (matched s k c b)) \<Longrightarrow> 0 \<le> x"
  proof -
    fix x assume "x \<in> snd ` set (disappeared (matched s k c b))"
    then have "x \<in> insert 0 (snd ` set (disappeared s))"
      using snd_set_update[of k 0 "disappeared s"] by (auto simp: matched_def)
    then show "0 \<le> x" using inv_fields(5)[OF inv] by auto
  qed
qed

lemma match_loop_result:
  assumes "distinct (map fst (objects s))"
    and "\<forall>p \<in> set ps. ids ! fst p \<in> fst ` set (objects s)"
  shows "match_loop D ids ics ibs ps ur uc s =
     Inr (apply_matches ids ics ibs (matched_pairs D ps ur uc) s,
          ur \<union> fst ` set (matched_pairs D ps ur uc),
          uc \<union> snd ` set (matched_pairs D ps ur uc))"
  using assms
proof (induction ps arbitrary: ur uc s)
  case Nil
  then show ?case by simp
next
  case (Cons p ps)
  obtain row col where p: "p = (row, col)" by (cases p)
  show ?case
  proof (cases "row \<in> ur \<or> col \<in> uc \<or> D ! row ! col > 2500")
    case True
    have "match_loop D ids ics ibs (p # ps) ur uc s = match_loop D ids ics ibs ps ur uc s"
      using True unfolding p by auto
    moreover have "matched_pairs D (p # ps) ur uc = matched_pairs D ps ur uc"
      using True unfolding p by auto
    ultimately show ?thesis using Cons.IH[of s ur uc] Cons.prems by simp
  next
    case False
    let ?s1 = "matched s (ids ! row) (ics ! col) (ibs ! col)"
    from Cons.prems(2) have k: "ids ! row \<in> fst ` set (objects s)" unfolding p by simp
    have mr: "match_row s (ids ! row) (ics ! col) (ibs ! col) = Inr ?s1"
      using Cons.prems(1) k by (rule match_row_present)
    have ml: "match_loop D ids ics ibs (p # ps) ur uc s =
        match_loop D ids ics ibs ps (insert row ur) (insert col uc) ?s1"
      using False mr unfolding p by simp
    have mp: "matched_pairs D (p # ps) ur uc =
        (row, col) # matched_pairs D ps (insert row ur) (insert col uc)"
      using False unfolding p by simp
    have d1: "distinct (map fst (objects ?s1))" using Cons.prems(1) by simp
    have k1: "\<forall>p \<in> set ps. ids ! fst p \<in> fst ` set (objects ?s1)"
      unfolding matched_keys_set using Cons.prems(2) by simp
    from Cons.IH[OF d1 k1, of "insert row ur" "insert col uc"]
    show ?thesis unfolding ml mp by simp
  qed
qed

lemma matched_pairs_subset: "set (matched_pairs D ps ur uc) \<subseteq> set ps"
  by (induction D ps ur uc rule: matched_pairs.induct) auto

lemma matched_pairs_fresh:
  "(r, c) \<in> set (matched_pairs D ps ur uc) \<Longrightarrow> r \<notin> ur \<and> c \<notin> uc \<and> D ! r ! c \<le> 2500"
  by (induction D ps ur uc rule: matched_pairs.induct) (auto split: if_splits)

lemma matched_pairs_distinct_rows: "distinct (map fst (matched_pairs D ps ur uc))"
proof (induction D ps ur uc rule: matched_pairs.induct)
  case (1 D ur uc)
  then show ?case by simp
next
  case (2 D row col ps ur uc)
  have "row \<notin> fst ` set (matched_pairs D ps (insert row ur) (insert col uc))"
    using matched_pairs_fresh[of row _ D ps "insert row ur" "insert col uc"] by auto
  with 2 show ?case by auto
qed

lemma matched_pairs_distinct_cols: "distinct (map snd (matched_pairs D ps ur uc))"
proof (induction D ps ur uc rule: matched_pairs.induct)
  case (1 D ur uc)
  then show ?case by simp
next
  case (2 D row col ps ur uc)
  have "col \<notin> snd ` set (matched_pairs D ps (insert row ur) (insert col uc))"
    using matched_pairs_fresh[of _ col D ps "insert row ur" "insert col uc"] by auto
  with 2 show ?case by auto
qed

lemma map_of_matched:
  "map_of (objects (matched s k c b)) k' =
     (if k' = k then map_option (\<lambda>t. t\<lparr>centroid := c, bbox := b\<rparr>) (map_of (objects s) k)
      else map_of (objects s) k')"
proof -
  have h: "map_of (map (\<lambda>p. if fst p = k then (k, (snd p)\<lparr>centroid := c, bbox := b\<rparr>) else p) al) k' =
     (if k' = k then map_option (\<lambda>t. t\<lparr>centroid := c, bbox := b\<rparr>) (map_of al k)
      else map_of al k')" for al
    by (induction al) auto
  show ?thesis unfolding matched_def using h[of "objects s"] by simp
qed

lemma map_of_matched_dis:
  "map_of (disappeared (matched s k c b)) k' = (if k' = k then Some 0 else map_of (disappeared s) k')"
  by (simp add: matched_def update_conv')

lemma apply_matches_keys [simp]:
  "map fst (objects (apply_matches ids ics ibs M s)) = map fst (objects s)"
  by (induction ids ics ibs M s rule: apply_matches.induct) simp_all

lemma apply_matches_fields [simp]:
  "next_object_id (apply_matches ids ics ibs M s) = next_object_id s"
  "max_disappeared (apply_matches ids ics ibs M s) = max_disappeared s"
  "face_id_map (apply_matches ids ics ibs M s) = face_id_map s"
  by (induction ids ics ibs M s rule: apply_matches.induct) simp_all

lemma apply_matches_keys_set:
  "fst ` set (objects (apply_matches ids ics ibs M s)) = fst ` set (objects s)"
proof -
  have "set (map fst (objects (apply_matches ids ics ibs M s))) = set (map fst (objects s))" by simp
  then show ?thesis by (simp only: set_map)
qed

lemma apply_matches_inv:
  "tracker_inv s \<Longrightarrow> \<forall>p \<in> set M. ids ! fst p \<in> fst ` set (objects s) \<Longrightarrow>
   tracker_inv (apply_matches ids ics ibs M s)"
proof (induction ids ics ibs M s rule: apply_matches.induct)
  case (1 ids ics ibs s)
  then show ?case by simp
next
  case (2 ids ics ibs row col ps s)
  have "tracker_inv (matched s (ids ! row) (ics ! col) (ibs ! col))"
    using 2(2,3) by (intro matched_inv) auto
  moreover have "\<forall>p \<in> set ps. ids ! fst p \<in> fst ` set (objects (matched s (ids ! row) (ics ! col) (ibs ! col)))"
    unfolding matched_keys_set using 2(3) by simp
  ultimately show ?case using 2(1) by simp
qed

lemma apply_matches_other:
  "k \<notin> (\<lambda>p. ids ! fst p) ` set M \<Longrightarrow>
   map_of (objects (apply_matches ids ics ibs M s)) k = map_of (objects s) k \<and>
   map_of (disappeared (apply_matches ids ics ibs M s)) k = map_of (disappeared s) k"
  by (induction ids ics ibs M s rule: apply_matches.induct)
     (auto simp: map_of_matched map_of_matched_dis)

lemma apply_matches_hit:
  assumes "distinct ids" "distinct (map fst M)" "\<forall>p \<in> set M. fst p < length ids"
    and "(r, c) \<in> set M"
  shows "map_of (objects (apply_matches ids ics ibs M s)) (ids ! r) =
           map_option (\<lambda>t. t\<lparr>centroid := ics ! c, bbox := ibs ! c\<rparr>) (map_of (objects s) (ids ! r)) \<and>
         map_of (disappeared (apply_matches ids ics ibs M s)) (ids ! r) = Some 0"
  using assms(2-)
proof (induction M arbitrary: s)
  case Nil
  then show ?case by simp
next
  case (Cons q ps)
  obtain row col where q: "q = (row, col)" by (cases q)
  let ?s1 = "matched s (ids ! row) (ics ! col) (ibs ! col)"
  have am: "apply_matches ids ics ibs (q # ps) s = apply_matches ids ics ibs ps ?s1"
    unfolding q by simp
  show ?case
  proof (cases "(r, c) = (row, col)")
    case True
    have "ids ! r \<notin> (\<lambda>p. ids ! fst p) ` set ps"
    proof
      assume "ids ! r \<in> (\<lambda>p. ids ! fst p) ` set ps"
      then obtain p where p: "p \<in> set ps" "ids ! r = ids ! fst p" by auto
      with Cons.prems True have "fst p < length ids" "r < length ids" unfolding q by auto
      with p(2) assms(1) have "r = fst p" by (simp add: nth_eq_iff_index_eq)
      with p(1) True Cons.prems(1) show False unfolding q by auto
    qed
    from apply_matches_other[OF this, of ics ibs ?s1] True show ?thesis
      unfolding am by (simp add: map_of_matched map_of_matched_dis)
  next
    case False
    with Cons.prems have in_ps: "(r, c) \<in> set ps" unfolding q by auto
    with Cons.prems(1) have ne: "r \<noteq> row" unfolding q by force
    from Cons.prems in_ps have "r < length ids" "row < length ids" unfolding q by auto
    with ne assms(1) have nk: "ids ! r \<noteq> ids ! row" by (simp add: nth_eq_iff_index_eq)
    have "distinct (map fst ps)" "\<forall>p \<in> set ps. fst p < length ids"
      using Cons.prems by auto
    from Cons.IH[OF this in_ps, of ?s1] nk show ?thesis
      unfolding am by (simp add: map_of_matched map_of_matched_dis)
  qed
qed

lemma argsort_set [simp]: "set (argsort ks) = {0..<length ks}"
  by (simp add: argsort_def)

lemma argsort_distinct [simp]: "distinct (argsort ks)"
  by (simp add: argsort_def)

lemma argsort_length [simp]: "length (argsort ks) = length ks"
  by (simp add: argsort_def)

lemma argsort_sorted: "sorted (map (\<lambda>i. ks ! i) (argsort ks))"
  by (simp add: argsort_def)

lemma first_index_in:
  "x \<in> set xs \<Longrightarrow> first_index x xs < length xs \<and> xs ! first_index x xs = x \<and>
     (\<forall>j < first_index x xs. xs ! j \<noteq> x)"
proof (induction xs)
  case Nil
  then show ?case by simp
next
  case (Cons y ys)
  show ?case
  proof (cases "x = y")
    case True
    then show ?thesis by simp
  next
    case False
    with Cons have ih: "first_index x ys < length ys \<and> ys ! first_index x ys = x \<and>
      (\<forall>j < first_index x ys. ys ! j \<noteq> x)" by auto
    have "\<forall>j < Suc (first_index x ys). (y # ys) ! j \<noteq> x"
    proof (intro allI impI)
      fix j assume "j < Suc (first_index x ys)"
      then show "(y # ys) ! j \<noteq> x" using ih False by (cases j) auto
    qed
    with ih False show ?thesis by simp
  qed
qed

lemma min_list_in: "xs \<noteq> [] \<Longrightarrow> min_list xs \<in> set (xs :: int list)"
  using min_list_Min[of xs] Min_in[of "set xs"] by auto

lemma min_list_le: "x \<in> set xs \<Longrightarrow> min_list xs \<le> (x :: int)"
proof -
  assume x: "x \<in> set xs"
  then have "xs \<noteq> []" by auto
  then have "min_list xs = Min (set xs)" by (rule min_list_Min)
  also have "\<dots> \<le> x" using x by (intro Min_le) simp_all
  finally show ?thesis .
qed

lemma argmin_props:
  assumes "xs \<noteq> []"
  shows "argmin xs < length xs" "xs ! argmin xs = min_list xs"
    "\<And>j. j < length xs \<Longrightarrow> xs ! argmin xs \<le> xs ! j"
    "\<And>j. j < argmin xs \<Longrightarrow> xs ! argmin xs < xs ! j"
proof -
  from first_index_in[OF min_list_in[OF assms]]
  have a: "argmin xs < length xs" and b: "xs ! argmin xs = min_list xs"
    and c: "\<And>j. j < argmin xs \<Longrightarrow> xs ! j \<noteq> min_list xs"
    unfolding argmin_def by auto
  show "argmin xs < length xs" by (rule a)
  show "xs ! argmin xs = min_list xs" by (rule b)
  show le: "\<And>j. j < length xs \<Longrightarrow> xs ! argmin xs \<le> xs ! j"
    unfolding b by (rule min_list_le) simp
  show "\<And>j. j < argmin xs \<Longrightarrow> xs ! argmin xs < xs ! j"
  proof -
    fix j assume j: "j < argmin xs"
    with a have "j < length xs" by simp
    from le[OF this] c[OF j] b show "xs ! argmin xs < xs ! j" by simp
  qed
qed

lemma cdist_length [simp]: "length (cdist ps qs) = length ps"
  by (simp add: cdist_def)

lemma cdist_row: "r < length ps \<Longrightarrow> cdist ps qs ! r = map (\<lambda>q. dist_sq (ps ! r) q) qs"
  by (simp add: cdist_def)

lemma assoc_D_length [simp]: "length (assoc_D s detections) = length (objects s)"
  by (simp add: assoc_D_def)

lemma assoc_D_row_length:
  "r < length (objects s) \<Longrightarrow> length (assoc_D s detections ! r) = length detections"
  by (simp add: assoc_D_def cdist_row)

lemma assoc_D_entry:
  "r < length (objects s) \<Longrightarrow> c < length detections \<Longrightarrow>
   assoc_D s detections ! r ! c =
     dist_sq (centroid (snd (objects s ! r))) (centroid_of (det_bbox (detections ! c)))"
  by (simp add: assoc_D_def cdist_row)

lemma assoc_rows_set [simp]: "set (assoc_rows s detections) = {0..<length (objects s)}"
  by (simp add: assoc_rows_def)

lemma zip_map_same: "zip xs (map f xs) = map (\<lambda>x. (x, f x)) xs"
  by (induction xs) simp_all

lemma matches_rows: "fst ` set (matches s detections) \<subseteq> {0..<length (objects s)}"
proof -
  have "set (matches s detections) \<subseteq>
     set (zip (assoc_rows s detections)
            (map (\<lambda>row. argmin (assoc_D s detections ! row)) (assoc_rows s detections)))"
    unfolding matches_def by (rule matched_pairs_subset)
  then show ?thesis by (auto simp: zip_map_same)
qed

lemma matches_argmin:
  "(r, c) \<in> set (matches s detections) \<Longrightarrow>
     r < length (objects s) \<and> c = argmin (assoc_D s detections ! r) \<and>
     assoc_D s detections ! r ! c \<le> 2500"
proof -
  assume a: "(r, c) \<in> set (matches s detections)"
  have "set (matches s detections) \<subseteq>
     set (zip (assoc_rows s detections)
            (map (\<lambda>row. argmin (assoc_D s detections ! row)) (assoc_rows s detections)))"
    unfolding matches_def by (rule matched_pairs_subset)
  with a have "r < length (objects s) \<and> c = argmin (assoc_D s detections ! r)"
    by (auto simp: zip_map_same)
  moreover from a have "assoc_D s detections ! r ! c \<le> 2500"
    unfolding matches_def using matched_pairs_fresh by blast
  ultimately show ?thesis by simp
qed

lemma matches_cols:
  assumes "detections \<noteq> []"
  shows "snd ` set (matches s detections) \<subseteq> {0..<length detections}"
proof
  fix c assume "c \<in> snd ` set (matches s detections)"
  then obtain r where rc: "(r, c) \<in> set (matches s detections)" by auto
  from matches_argmin[OF rc] have r: "r < length (objects s)"
    and c: "c = argmin (assoc_D s detections ! r)" by simp_all
  have len: "length (assoc_D s detections ! r) = length detections"
    using r by (rule assoc_D_row_length)
  with assms have "assoc_D s detections ! r \<noteq> []" by auto
  from argmin_props(1)[OF this] len c show "c \<in> {0..<length detections}" by simp
qed

lemma update_unfold:
  assumes d: "distinct (map fst (objects s))" and o: "objects s \<noteq> []" and n: "detections \<noteq> []"
  shows "update s detections =
    (case age_ids (map (\<lambda>row. map fst (objects s) ! row) (unused_rows s detections))
            (apply_matches (map fst (objects s)) (map (\<lambda>det. centroid_of (det_bbox det)) detections)
               (map det_bbox detections) (matches s detections) s) of
       Inl e \<Rightarrow> Inl e
     | Inr s2 \<Rightarrow>
         Inr (register_cols (map (\<lambda>det. centroid_of (det_bbox det)) detections)
                (map det_bbox detections) (unused_cols s detections) s2))"
proof -
  let ?D = "assoc_D s detections"
  let ?rows = "assoc_rows s detections"
  let ?ps = "zip ?rows (map (\<lambda>row. argmin (?D ! row)) ?rows)"
  let ?ids = "map fst (objects s)"
  let ?ics = "map (\<lambda>det. centroid_of (det_bbox det)) detections"
  let ?ibs = "map det_bbox detections"
  have k: "\<forall>p \<in> set ?ps. ?ids ! fst p \<in> fst ` set (objects s)"
  proof
    fix p assume "p \<in> set ?ps"
    then have "fst p < length (objects s)" by (auto simp: zip_map_same)
    then have "?ids ! fst p \<in> set ?ids" by simp
    then show "?ids ! fst p \<in> fst ` set (objects s)" by (simp only: set_map)
  qed
  from match_loop_result[OF d k, of ?D ?ics ?ibs "{}" "{}"]
  have ml: "match_loop ?D ?ids ?ics ?ibs ?ps {} {} s =
     Inr (apply_matches ?ids ?ics ?ibs (matches s detections) s,
          fst ` set (matches s detections), snd ` set (matches s detections))"
    by (simp add: matches_def)
  show ?thesis
    using o n unfolding update_def Let_def unused_rows_def unused_cols_def
    by (simp add: ml assoc_D_def[symmetric] assoc_rows_def[symmetric] cong: sum.case_cong)
qed

lemma matched_state_keys [simp]:
  "map fst (objects (matched_state s detections)) = map fst (objects s)"
  by (simp add: matched_state_def)

lemma matched_state_fields [simp]:
  "next_object_id (matched_state s detections) = next_object_id s"
  "max_disappeared (matched_state s detections) = max_disappeared s"
  "face_id_map (matched_state s detections) = face_id_map s"
  by (simp_all add: matched_state_def)

lemma matched_state_keys_set:
  "fst ` set (objects (matched_state s detections)) = fst ` set (objects s)"
  unfolding matched_state_def by (rule apply_matches_keys_set)

lemma nth_keys_in: "r < length al \<Longrightarrow> map fst al ! r \<in> fst ` set al"
proof -
  assume "r < length al"
  then have "map fst al ! r \<in> set (map fst al)" by simp
  then show ?thesis by (simp only: set_map)
qed

lemma matches_ids_present:
  "\<forall>p \<in> set (matches s detections). map fst (objects s) ! fst p \<in> fst ` set (objects s)"
proof
  fix p assume "p \<in> set (matches s detections)"
  then have "fst p < length (objects s)" using matches_rows[of s detections] by auto
  then show "map fst (objects s) ! fst p \<in> fst ` set (objects s)" by (rule nth_keys_in)
qed

lemma matched_state_inv: "tracker_inv s \<Longrightarrow> tracker_inv (matched_state s detections)"
  unfolding matched_state_def by (intro apply_matches_inv matches_ids_present)

lemma matches_distinct_rows: "distinct (map fst (matches s detections))"
  unfolding matches_def by (rule matched_pairs_distinct_rows)

lemma matches_distinct_cols: "distinct (map snd (matches s detections))"
  unfolding matches_def by (rule matched_pairs_distinct_cols)

lemma unmatched_ids_distinct:
  assumes "distinct (map fst (objects s))"
  shows "distinct (unmatched_ids s detections)"
proof -
  have "inj_on (nth (map fst (objects s))) (set (unused_rows s detections))"
    using assms by (intro inj_on_nth) (auto simp: unused_rows_def)
  moreover have "distinct (unused_rows s detections)" by (simp add: unused_rows_def)
  ultimately show ?thesis unfolding unmatched_ids_def by (simp add: distinct_map)
qed

lemma unmatched_ids_subset: "set (unmatched_ids s detections) \<subseteq> fst ` set (objects s)"
  using nth_keys_in[of _ "objects s"] by (auto simp: unmatched_ids_def unused_rows_def)

lemma unmatched_not_matched:
  assumes d: "distinct (map fst (objects s))" and k: "k \<in> set (unmatched_ids s detections)"
  shows "k \<notin> (\<lambda>p. map fst (objects s) ! fst p) ` set (matches s detections)"
proof
  assume "k \<in> (\<lambda>p. map fst (objects s) ! fst p) ` set (matches s detections)"
  then obtain p where p: "p \<in> set (matches s detections)" "k = map fst (objects s) ! fst p" by auto
  from k obtain r where r: "r < length (objects s)" "r \<notin> fst ` set (matches s detections)"
    "k = map fst (objects s) ! r" by (auto simp: unmatched_ids_def unused_rows_def)
  from p(1) have "fst p < length (objects s)" using matches_rows[of s detections] by auto
  with r(1) have "r < length (map fst (objects s))" "fst p < length (map fst (objects s))"
    by simp_all
  moreover have "map fst (objects s) ! r = map fst (objects s) ! fst p"
    using r(3) p(2) by simp
  ultimately have "r = fst p" using d nth_eq_iff_index_eq by blast
  with p(1) r(2) show False by auto
qed

lemma unmatched_counter:
  assumes d: "distinct (map fst (objects s))" and k: "k \<in> set (unmatched_ids s detections)"
  shows "counter (matched_state s detections) k = counter s k"
    and "expired (matched_state s detections) k = expired s k"
    and "map_of (objects (matched_state s detections)) k = map_of (objects s) k"
proof -
  from apply_matches_other[OF unmatched_not_matched[OF d k]]
  have a: "map_of (objects (matched_state s detections)) k = map_of (objects s) k"
    and b: "map_of (disappeared (matched_state s detections)) k = map_of (disappeared s) k"
    unfolding matched_state_def by blast+
  show "map_of (objects (matched_state s detections)) k = map_of (objects s) k" by (rule a)
  show c: "counter (matched_state s detections) k = counter s k" by (simp add: counter_def b)
  show "expired (matched_state s detections) k = expired s k" by (simp add: expired_def c)
qed

lemma update_assoc:
  assumes inv: "tracker_inv s" and o: "objects s \<noteq> []" and n: "detections \<noteq> []"
  shows "\<exists>s'. update s detections = Inr s' \<and> tracker_inv s' \<and>
     next_object_id s' = next_object_id s + int (length (unused_cols s detections)) \<and>
     max_disappeared s' = max_disappeared s \<and>
     objects s' =
       filter (\<lambda>p. \<not> (fst p \<in> set (unmatched_ids s detections) \<and> expired s (fst p)))
         (objects (matched_state s detections)) @
       map (\<lambda>i. (next_object_id s + int i,
                 new_track (input_centroids detections ! (unused_cols s detections ! i))
                           (map det_bbox detections ! (unused_cols s detections ! i))))
           [0..<length (unused_cols s detections)] \<and>
     (\<forall>k. map_of (disappeared s') k =
        (if next_object_id s \<le> k \<and> k < next_object_id s + int (length (unused_cols s detections))
         then Some 0
         else if k \<in> set (unmatched_ids s detections)
         then (if expired s k then None else Some (counter s k + 1))
         else map_of (disappeared (matched_state s detections)) k)) \<and>
     face_id_map s' =
       filter (\<lambda>p. \<not> (fst p \<in> set (unmatched_ids s detections) \<and> expired s (fst p)))
         (face_id_map s)"
proof -
  let ?s1 = "matched_state s detections"
  let ?U = "unmatched_ids s detections"
  let ?uc = "unused_cols s detections"
  let ?ics = "input_centroids detections"
  let ?ibs = "map det_bbox detections"
  have d: "distinct (map fst (objects s))" by (rule inv_fields(1)[OF inv])
  have i1: "tracker_inv ?s1" using inv by (rule matched_state_inv)
  have dU: "distinct ?U" using d by (rule unmatched_ids_distinct)
  have sU: "set ?U \<subseteq> fst ` set (objects ?s1)"
    unfolding matched_state_keys_set by (rule unmatched_ids_subset)
  from age_ids_result[OF i1 dU sU] obtain s2 where
    a: "age_ids ?U ?s1 = Inr s2" and
    o2: "objects s2 = filter (\<lambda>p. \<not> (fst p \<in> set ?U \<and> expired ?s1 (fst p))) (objects ?s1)" and
    f2: "face_id_map s2 = filter (\<lambda>p. \<not> (fst p \<in> set ?U \<and> expired ?s1 (fst p))) (face_id_map ?s1)" and
    d2: "\<And>k. map_of (disappeared s2) k =
        (if k \<in> set ?U then (if expired ?s1 k then None else Some (counter ?s1 k + 1))
         else map_of (disappeared ?s1) k)" and
    n2: "next_object_id s2 = next_object_id ?s1" and m2: "max_disappeared s2 = max_disappeared ?s1" and
    i2: "tracker_inv s2" by blast
  let ?s' = "register_cols ?ics ?ibs ?uc s2"
  have u: "update s detections = Inr ?s'"
    using update_unfold[OF d o n] a
    by (simp add: matched_state_def unmatched_ids_def input_centroids_def)
  have i': "tracker_inv ?s'" using i2 by (rule register_cols_inv)
  have o2': "objects s2 = filter (\<lambda>p. \<not> (fst p \<in> set ?U \<and> expired s (fst p))) (objects ?s1)"
    unfolding o2 using unmatched_counter(2)[OF d] by (intro filter_cong) auto
  have f2': "face_id_map s2 = filter (\<lambda>p. \<not> (fst p \<in> set ?U \<and> expired s (fst p))) (face_id_map s)"
    unfolding f2 using unmatched_counter(2)[OF d] by (simp cong: filter_cong)
  have "\<forall>k \<in> fst ` set (objects s2). k < next_object_id s2"
    using inv_fields(4)[OF i2] by blast
  from register_cols_objects[OF this, of ?ics ?ibs ?uc]
  have o': "objects ?s' = filter (\<lambda>p. \<not> (fst p \<in> set ?U \<and> expired s (fst p))) (objects ?s1) @
       map (\<lambda>i. (next_object_id s + int i, new_track (?ics ! (?uc ! i)) (?ibs ! (?uc ! i))))
           [0..<length ?uc]"
    unfolding o2' n2 by simp
  have d': "\<forall>k. map_of (disappeared ?s') k =
        (if next_object_id s \<le> k \<and> k < next_object_id s + int (length ?uc)
         then Some 0
         else if k \<in> set ?U
         then (if expired s k then None else Some (counter s k + 1))
         else map_of (disappeared ?s1) k)"
    using unmatched_counter(1,2)[OF d]
    by (auto simp: register_cols_disappeared n2 d2)
  have n': "next_object_id ?s' = next_object_id s + int (length ?uc)" by (simp add: n2)
  have m': "max_disappeared ?s' = max_disappeared s" by (simp add: m2)
  have f': "face_id_map ?s' = filter (\<lambda>p. \<not> (fst p \<in> set ?U \<and> expired s (fst p))) (face_id_map s)"
    by (simp add: f2')
  from u i' n' m' o' d' f' show ?thesis by blast
qed

subsection \<open>What an update with tracks and detections leaves behind\<close>

lemma map_of_absent: "k \<notin> fst ` set al \<Longrightarrow> map_of al k = None"
  using map_of_None_iff[of al k] by blast

lemma map_fst_filter_key: "map fst (filter (\<lambda>p. Q (fst p)) al) = filter Q (map fst al)"
  by (induction al) auto

lemma map_of_filter_key:
  "map_of (filter (\<lambda>p. Q (fst p)) al) k = (if Q k then map_of al k else None)"
  by (induction al) auto

lemma map_of_append_left:
  "map_of (xs @ ys) k = (case map_of xs k of None \<Rightarrow> map_of ys k | Some v \<Rightarrow> Some v)"
  by (simp add: map_add_def)

lemma map_of_append_absent: "map_of xs k = None \<Longrightarrow> map_of (xs @ ys) k = map_of ys k"
  by (simp add: map_add_def)

lemma map_of_fresh_list:
  "i < n \<Longrightarrow> map_of (map (\<lambda>i. (a + int i, f i)) [0..<n]) (a + int i) = Some (f i)"
proof (induction n)
  case 0
  then show ?case by simp
next
  case (Suc n)
  show ?case
  proof (cases "i = n")
    case True
    have "a + int n \<notin> fst ` set (map (\<lambda>i. (a + int i, f i)) [0..<n])" by auto
    then have "map_of (map (\<lambda>i. (a + int i, f i)) [0..<n]) (a + int n) = None"
      by (rule map_of_absent)
    with True show ?thesis by (simp add: map_add_def)
  next
    case False
    with Suc have "map_of (map (\<lambda>i. (a + int i, f i)) [0..<n]) (a + int i) = Some (f i)" by simp
    then show ?thesis by (simp add: map_add_def)
  qed
qed

lemma map_of_old_key:
  assumes "k < a"
  shows "map_of (xs @ map (\<lambda>i. (a + int i, f i)) [0..<n]) k = map_of xs k"
proof -
  have "k \<notin> fst ` set (map (\<lambda>i. (a + int i, f i)) [0..<n])" using assms by auto
  then have "map_of (map (\<lambda>i. (a + int i, f i)) [0..<n]) k = None"
    by (rule map_of_absent)
  then show ?thesis by (simp add: map_add_def split: option.split)
qed

lemma matched_row_not_unmatched:
  assumes d: "distinct (map fst (objects s))" and rc: "(r, c) \<in> set (matches s detections)"
  shows "map fst (objects s) ! r \<notin> set (unmatched_ids s detections)"
proof
  assume "map fst (objects s) ! r \<in> set (unmatched_ids s detections)"
  from unmatched_not_matched[OF d this] rc show False by force
qed

lemma unmatched_row_in:
  "r < length (objects s) \<Longrightarrow> r \<notin> fst ` set (matches s detections) \<Longrightarrow>
   map fst (objects s) ! r \<in> set (unmatched_ids s detections)"
  by (simp add: unmatched_ids_def unused_rows_def)

lemma matched_state_hit:
  assumes d: "distinct (map fst (objects s))" and rc: "(r, c) \<in> set (matches s detections)"
  shows "map_of (objects (matched_state s detections)) (map fst (objects s) ! r) =
           map_option (\<lambda>t. t\<lparr>centroid := input_centroids detections ! c,
                               bbox := map det_bbox detections ! c\<rparr>)
             (map_of (objects s) (map fst (objects s) ! r))"
    and "map_of (disappeared (matched_state s detections)) (map fst (objects s) ! r) = Some 0"
proof -
  have l: "\<forall>p \<in> set (matches s detections). fst p < length (map fst (objects s))"
    using matches_rows[of s detections] by auto
  from apply_matches_hit[OF d matches_distinct_rows l rc]
  show "map_of (objects (matched_state s detections)) (map fst (objects s) ! r) =
           map_option (\<lambda>t. t\<lparr>centroid := input_centroids detections ! c,
                               bbox := map det_bbox detections ! c\<rparr>)
             (map_of (objects s) (map fst (objects s) ! r))"
    and "map_of (disappeared (matched_state s detections)) (map fst (objects s) ! r) = Some 0"
    unfolding matched_state_def by blast+
qed

lemma update_assoc_effects:
  assumes inv: "tracker_inv s" and o: "objects s \<noteq> []" and n: "detections \<noteq> []"
  defines "s'' \<equiv> state_of (update s detections)"
  shows "update s detections = Inr s''" and "tracker_inv s''"
    and "next_object_id s'' = next_object_id s + int (length (unused_cols s detections))"
    and "max_disappeared s'' = max_disappeared s"
    and "map fst (objects s'') =
       filter (\<lambda>k. \<not> (k \<in> set (unmatched_ids s detections) \<and> expired s k)) (map fst (objects s)) @
       map (\<lambda>i. next_object_id s + int i) [0..<length (unused_cols s detections)]"
    and "\<forall>r c. (r, c) \<in> set (matches s detections) \<longrightarrow>
        map_of (objects s'') (map fst (objects s) ! r) =
          map_option (\<lambda>t. t\<lparr>centroid := input_centroids detections ! c,
                              bbox := map det_bbox detections ! c\<rparr>)
            (map_of (objects s) (map fst (objects s) ! r)) \<and>
        map_of (disappeared s'') (map fst (objects s) ! r) = Some 0"
    and "\<forall>k \<in> set (unmatched_ids s detections).
        if expired s k then map_of (objects s'') k = None \<and> map_of (disappeared s'') k = None
        else map_of (objects s'') k = map_of (objects s) k \<and>
             map_of (disappeared s'') k = Some (counter s k + 1)"
    and "\<forall>i < length (unused_cols s detections).
        map_of (objects s'') (next_object_id s + int i) =
          Some (new_track (input_centroids detections ! (unused_cols s detections ! i))
                          (map det_bbox detections ! (unused_cols s detections ! i))) \<and>
        map_of (disappeared s'') (next_object_id s + int i) = Some 0"
proof -
  let ?s1 = "matched_state s detections"
  let ?U = "unmatched_ids s detections"
  let ?uc = "unused_cols s detections"
  let ?ids = "map fst (objects s)"
  let ?Q = "\<lambda>k. \<not> (k \<in> set ?U \<and> expired s k)"
  let ?f = "\<lambda>i. new_track (input_centroids detections ! (?uc ! i)) (map det_bbox detections ! (?uc ! i))"
  have d: "distinct ?ids" by (rule inv_fields(1)[OF inv])
  have lt: "\<And>k. k \<in> fst ` set (objects s) \<Longrightarrow> k < next_object_id s"
    by (rule inv_fields(4)[OF inv])
  from update_assoc[OF inv o n] obtain s' where
    u: "update s detections = Inr s'" and i': "tracker_inv s'" and
    n': "next_object_id s' = next_object_id s + int (length ?uc)" and
    m': "max_disappeared s' = max_disappeared s" and
    o': "objects s' = filter (\<lambda>p. ?Q (fst p)) (objects ?s1) @
           map (\<lambda>i. (next_object_id s + int i, ?f i)) [0..<length ?uc]" and
    d': "\<And>k. map_of (disappeared s') k =
        (if next_object_id s \<le> k \<and> k < next_object_id s + int (length ?uc) then Some 0
         else if k \<in> set ?U then (if expired s k then None else Some (counter s k + 1))
         else map_of (disappeared ?s1) k)"
    by blast
  have keys: "map fst (objects s') = filter ?Q ?ids @ map (\<lambda>i. next_object_id s + int i) [0..<length ?uc]"
    unfolding o' map_append map_fst_filter_key[of ?Q] matched_state_keys by (simp add: comp_def)
  have old: "map_of (objects s') k = (if ?Q k then map_of (objects ?s1) k else None)"
    if "k < next_object_id s" for k
  proof -
    have "map_of (objects s') k = map_of (filter (\<lambda>p. ?Q (fst p)) (objects ?s1)) k"
      unfolding o' using that by (rule map_of_old_key)
    also have "\<dots> = (if ?Q k then map_of (objects ?s1) k else None)"
      by (rule map_of_filter_key[of ?Q])
    finally show ?thesis .
  qed
  have hit: "\<forall>r c. (r, c) \<in> set (matches s detections) \<longrightarrow>
        map_of (objects s') (?ids ! r) =
          map_option (\<lambda>t. t\<lparr>centroid := input_centroids detections ! c,
                              bbox := map det_bbox detections ! c\<rparr>)
            (map_of (objects s) (?ids ! r)) \<and>
        map_of (disappeared s') (?ids ! r) = Some 0"
  proof (intro allI impI)
    fix r c assume rc: "(r, c) \<in> set (matches s detections)"
    then have "r < length (objects s)" using matches_rows[of s detections] by auto
    then have "?ids ! r \<in> fst ` set (objects s)" by (rule nth_keys_in)
    then have k: "?ids ! r < next_object_id s" by (rule lt)
    have nu: "?ids ! r \<notin> set ?U" using d rc by (rule matched_row_not_unmatched)
    from old[OF k] nu matched_state_hit(1)[OF d rc]
    have a: "map_of (objects s') (?ids ! r) =
          map_option (\<lambda>t. t\<lparr>centroid := input_centroids detections ! c,
                              bbox := map det_bbox detections ! c\<rparr>)
            (map_of (objects s) (?ids ! r))" by simp
    from d'[of "?ids ! r"] k nu matched_state_hit(2)[OF d rc]
    have b: "map_of (disappeared s') (?ids ! r) = Some 0" by simp
    from a b show "map_of (objects s') (?ids ! r) =
          map_option (\<lambda>t. t\<lparr>centroid := input_centroids detections ! c,
                              bbox := map det_bbox detections ! c\<rparr>)
            (map_of (objects s) (?ids ! r)) \<and>
        map_of (disappeared s') (?ids ! r) = Some 0" by simp
  qed
  have miss: "\<forall>k \<in> set ?U.
        if expired s k then map_of (objects s') k = None \<and> map_of (disappeared s') k = None
        else map_of (objects s') k = map_of (objects s) k \<and>
             map_of (disappeared s') k = Some (counter s k + 1)"
  proof
    fix k assume kU: "k \<in> set ?U"
    then have "k \<in> fst ` set (objects s)" using unmatched_ids_subset by blast
    then have k: "k < next_object_id s" by (rule lt)
    from old[OF k] kU unmatched_counter(3)[OF d kU] d'[of k] k
    show "if expired s k then map_of (objects s') k = None \<and> map_of (disappeared s') k = None
        else map_of (objects s') k = map_of (objects s) k \<and>
             map_of (disappeared s') k = Some (counter s k + 1)" by simp
  qed
  have new: "\<forall>i < length ?uc.
        map_of (objects s') (next_object_id s + int i) = Some (?f i) \<and>
        map_of (disappeared s') (next_object_id s + int i) = Some 0"
  proof (intro allI impI)
    fix i assume i: "i < length ?uc"
    have "next_object_id s + int i \<notin> fst ` set (objects s)" using lt by force
    then have "next_object_id s + int i \<notin> fst ` set (filter (\<lambda>p. ?Q (fst p)) (objects ?s1))"
      using matched_state_keys_set[of s detections] by auto
    then have "map_of (filter (\<lambda>p. ?Q (fst p)) (objects ?s1)) (next_object_id s + int i) = None"
      by (rule map_of_absent)
    then have "map_of (objects s') (next_object_id s + int i) =
        map_of (map (\<lambda>i. (next_object_id s + int i, ?f i)) [0..<length ?uc]) (next_object_id s + int i)"
      unfolding o' by (rule map_of_append_absent)
    also have "\<dots> = Some (?f i)" using i by (rule map_of_fresh_list)
    finally have a: "map_of (objects s') (next_object_id s + int i) = Some (?f i)" .
    have b: "map_of (disappeared s') (next_object_id s + int i) = Some 0"
      using d'[of "next_object_id s + int i"] i by simp
    from a b show "map_of (objects s') (next_object_id s + int i) = Some (?f i) \<and>
        map_of (disappeared s') (next_object_id s + int i) = Some 0" by simp
  qed
  have eq: "s'' = s'" unfolding s''_def u by (simp add: state_of_def)
  show "update s detections = Inr s''" unfolding eq by (rule u)
  show "tracker_inv s''" unfolding eq by (rule i')
  show "next_object_id s'' = next_object_id s + int (length (unused_cols s detections))"
    unfolding eq by (rule n')
  show "max_disappeared s'' = max_disappeared s" unfolding eq by (rule m')
  show "map fst (objects s'') =
       filter (\<lambda>k. \<not> (k \<in> set (unmatched_ids s detections) \<and> expired s k)) (map fst (objects s)) @
       map (\<lambda>i. next_object_id s + int i) [0..<length (unused_cols s detections)]"
    unfolding eq by (rule keys)
  show "\<forall>r c. (r, c) \<in> set (matches s detections) \<longrightarrow>
        map_of (objects s'') (map fst (objects s) ! r) =
          map_option (\<lambda>t. t\<lparr>centroid := input_centroids detections ! c,
                              bbox := map det_bbox detections ! c\<rparr>)
            (map_of (objects s) (map fst (objects s) ! r)) \<and>
        map_of (disappeared s'') (map fst (objects s) ! r) = Some 0"
    unfolding eq by (rule hit)
  show "\<forall>k \<in> set (unmatched_ids s detections).
        if expired s k then map_of (objects s'') k = None \<and> map_of (disappeared s'') k = None
        else map_of (objects s'') k = map_of (objects s) k \<and>
             map_of (disappeared s'') k = Some (counter s k + 1)"
    unfolding eq by (rule miss)
  show "\<forall>i < length (unused_cols s detections).
        map_of (objects s'') (next_object_id s + int i) =
          Some (new_track (input_centroids detections ! (unused_cols s detections ! i))
                          (map det_bbox detections ! (unused_cols s detections ! i))) \<and>
        map_of (disappeared s'') (next_object_id s + int i) = Some 0"
    unfolding eq by (rule new)
qed

lemma matched_pairs_find:
  assumes "distinct rs" "set rs \<inter> ur = {}"
  shows "(r, c) \<in> set (matched_pairs D (map (\<lambda>r. (r, am r)) rs) ur uc) \<longleftrightarrow>
         c \<notin> uc \<and> find (\<lambda>r'. am r' = c \<and> D ! r' ! c \<le> 2500) rs = Some r"
  using assms
proof (induction rs arbitrary: ur uc)
  case Nil
  then show ?case by simp
next
  case (Cons r0 rs)
  from Cons.prems have r0: "r0 \<notin> ur" and d: "distinct rs" and r0rs: "r0 \<notin> set rs"
    and dj: "set rs \<inter> ur = {}" by auto
  show ?case
  proof (cases "am r0 \<in> uc \<or> D ! r0 ! am r0 > 2500")
    case True
    then have mp: "matched_pairs D (map (\<lambda>r. (r, am r)) (r0 # rs)) ur uc =
        matched_pairs D (map (\<lambda>r. (r, am r)) rs) ur uc" by auto
    have "c \<notin> uc \<Longrightarrow> \<not> (am r0 = c \<and> D ! r0 ! c \<le> 2500)" using True by auto
    then have "(c \<notin> uc \<and> find (\<lambda>r'. am r' = c \<and> D ! r' ! c \<le> 2500) (r0 # rs) = Some r) \<longleftrightarrow>
        (c \<notin> uc \<and> find (\<lambda>r'. am r' = c \<and> D ! r' ! c \<le> 2500) rs = Some r)" by auto
    with Cons.IH[OF d dj, of uc] show ?thesis unfolding mp by simp
  next
    case False
    then have mp: "matched_pairs D (map (\<lambda>r. (r, am r)) (r0 # rs)) ur uc =
        (r0, am r0) # matched_pairs D (map (\<lambda>r. (r, am r)) rs) (insert r0 ur) (insert (am r0) uc)"
      using r0 by auto
    have dj': "set rs \<inter> insert r0 ur = {}" using dj r0rs by auto
    from Cons.IH[OF d dj', of "insert (am r0) uc"]
    have ih: "(r, c) \<in> set (matched_pairs D (map (\<lambda>r. (r, am r)) rs) (insert r0 ur) (insert (am r0) uc)) \<longleftrightarrow>
       c \<notin> insert (am r0) uc \<and> find (\<lambda>r'. am r' = c \<and> D ! r' ! c \<le> 2500) rs = Some r" .
    show ?thesis
    proof (cases "c = am r0")
      case True
      with False have "find (\<lambda>r'. am r' = c \<and> D ! r' ! c \<le> 2500) (r0 # rs) = Some r0" by simp
      with True False ih show ?thesis unfolding mp by auto
    next
      case ne: False
      then have "find (\<lambda>r'. am r' = c \<and> D ! r' ! c \<le> 2500) (r0 # rs) =
          find (\<lambda>r'. am r' = c \<and> D ! r' ! c \<le> 2500) rs" by auto
      with ne ih show ?thesis unfolding mp by auto
    qed
  qed
qed

lemma find_gate_sorted:
  assumes "sorted (map (\<lambda>r. D ! r ! am r) rs)"
  shows "find (\<lambda>r'. am r' = c \<and> D ! r' ! c \<le> (g::int)) rs = Some r \<longleftrightarrow>
         find (\<lambda>r'. am r' = c) rs = Some r \<and> D ! r ! c \<le> g"
  using assms
proof (induction rs)
  case Nil
  then show ?case by simp
next
  case (Cons r0 rs)
  from Cons.prems have s: "sorted (map (\<lambda>r. D ! r ! am r) rs)"
    and le: "\<And>r'. r' \<in> set rs \<Longrightarrow> D ! r0 ! am r0 \<le> D ! r' ! am r'" by auto
  show ?case
  proof (cases "am r0 = c")
    case False
    with Cons.IH[OF s] show ?thesis by simp
  next
    case True
    show ?thesis
    proof (cases "D ! r0 ! c \<le> g")
      case g: True
      with True show ?thesis by auto
    next
      case ng: False
      have "find (\<lambda>r'. am r' = c \<and> D ! r' ! c \<le> g) rs \<noteq> Some r"
      proof
        assume "find (\<lambda>r'. am r' = c \<and> D ! r' ! c \<le> g) rs = Some r"
        then have "r \<in> set rs" "am r = c" "D ! r ! c \<le> g"
          by (auto simp: find_Some_iff)
        with le[of r] True ng show False by auto
      qed
      with True ng show ?thesis by auto
    qed
  qed
qed

lemma sqrt_2500: "sqrt 2500 = 50"
proof -
  have "sqrt ((50::real)\<^sup>2) = \<bar>50\<bar>" by (rule real_sqrt_abs)
  then show ?thesis by simp
qed

lemma euclid_le_iff: "euclid p q \<le> euclid p' q' \<longleftrightarrow> dist_sq p q \<le> dist_sq p' q'"
  by (simp add: euclid_def)

lemma euclid_gate_iff: "euclid p q > 50 \<longleftrightarrow> dist_sq p q > 2500"
proof -
  have "euclid p q > 50 \<longleftrightarrow> sqrt (real_of_int (dist_sq p q)) > sqrt 2500"
    by (simp add: euclid_def sqrt_2500)
  also have "\<dots> \<longleftrightarrow> real_of_int (dist_sq p q) > 2500" by (rule real_sqrt_less_iff)
  also have "\<dots> \<longleftrightarrow> dist_sq p q > 2500" by linarith
  finally show ?thesis .
qed

lemma assoc_D_row_nonempty:
  "detections \<noteq> [] \<Longrightarrow> r < length (objects s) \<Longrightarrow> assoc_D s detections ! r \<noteq> []"
  using assoc_D_row_length[of r s detections] by auto

lemma assoc_rows_sorted:
  "sorted (map (\<lambda>r. min_list (assoc_D s detections ! r)) (assoc_rows s detections))"
proof -
  have "map (\<lambda>r. min_list (assoc_D s detections ! r)) (assoc_rows s detections) =
        map (\<lambda>i. map min_list (assoc_D s detections) ! i) (assoc_rows s detections)"
    by (intro map_cong refl) simp
  then show ?thesis unfolding assoc_rows_def by (simp only: argsort_sorted)
qed

lemma assoc_rows_distinct [simp]: "distinct (assoc_rows s detections)"
  by (simp add: assoc_rows_def)

lemma matches_iff:
  assumes n: "detections \<noteq> []"
  shows "(r, c) \<in> set (matches s detections) \<longleftrightarrow>
     find (\<lambda>r'. argmin (assoc_D s detections ! r') = c) (assoc_rows s detections) = Some r \<and>
     assoc_D s detections ! r ! c \<le> 2500"
proof -
  let ?D = "assoc_D s detections"
  let ?rows = "assoc_rows s detections"
  let ?am = "\<lambda>r. argmin (?D ! r)"
  have eq: "map (\<lambda>r. ?D ! r ! ?am r) ?rows = map (\<lambda>r. min_list (?D ! r)) ?rows"
  proof (intro map_cong refl)
    fix r assume "r \<in> set ?rows"
    then have "r < length (objects s)" by simp
    from argmin_props(2)[OF assoc_D_row_nonempty[OF n this]]
    show "?D ! r ! ?am r = min_list (?D ! r)" .
  qed
  have srt: "sorted (map (\<lambda>r. ?D ! r ! ?am r) ?rows)"
    unfolding eq by (rule assoc_rows_sorted)
  have "(r, c) \<in> set (matches s detections) \<longleftrightarrow>
      c \<notin> {} \<and> find (\<lambda>r'. ?am r' = c \<and> ?D ! r' ! c \<le> 2500) ?rows = Some r"
    unfolding matches_def zip_map_same
    by (rule matched_pairs_find) simp_all
  also have "\<dots> \<longleftrightarrow> find (\<lambda>r'. ?am r' = c) ?rows = Some r \<and> ?D ! r ! c \<le> 2500"
    using find_gate_sorted[OF srt, of c 2500 r] by simp
  finally show ?thesis .
qed

lemma update_total:
  assumes inv: "tracker_inv s"
  shows "\<exists>s'. update s detections = Inr s' \<and> tracker_inv s' \<and>
     max_disappeared s' = max_disappeared s \<and> next_object_id s \<le> next_object_id s' \<and>
     (\<exists>Q. map fst (objects s') =
        filter Q (map fst (objects s)) @
        map (\<lambda>i. next_object_id s + int i) [0..<nat (next_object_id s' - next_object_id s)])"
proof (cases "detections = []")
  case True
  from update_empty[OF inv] obtain s' where
    u: "update s [] = Inr s'" and
    o: "objects s' = filter (\<lambda>p. counter s (fst p) + 1 \<le> max_disappeared s) (objects s)" and
    n: "next_object_id s' = next_object_id s" and m: "max_disappeared s' = max_disappeared s" and
    i: "tracker_inv s'" by blast
  have "map fst (objects s') =
        filter (\<lambda>k. counter s k + 1 \<le> max_disappeared s) (map fst (objects s)) @
        map (\<lambda>i. next_object_id s + int i) [0..<nat (next_object_id s' - next_object_id s)]"
    unfolding o n map_fst_filter_key[of "\<lambda>k. counter s k + 1 \<le> max_disappeared s"] by simp
  then have eQ: "\<exists>Q. map fst (objects s') = filter Q (map fst (objects s)) @
        map (\<lambda>i. next_object_id s + int i) [0..<nat (next_object_id s' - next_object_id s)]"
    by (rule exI[of _ "\<lambda>k. counter s k + 1 \<le> max_disappeared s"])
  have le: "next_object_id s \<le> next_object_id s'" using n by simp
  from u i m le eQ show ?thesis unfolding True by blast
next
  case ne: False
  show ?thesis
  proof (cases "objects s = []")
    case True
    let ?s' = "register_cols (map (\<lambda>det. centroid_of (det_bbox det)) detections)
                 (map det_bbox detections) [0..<length detections] s"
    have u: "update s detections = Inr ?s'" using True ne by (rule update_no_tracks)
    have i: "tracker_inv ?s'" using inv by (rule register_cols_inv)
    have "\<forall>k \<in> fst ` set (objects s). k < next_object_id s" using True by simp
    from register_cols_objects[OF this]
    have "map fst (objects ?s') =
        filter (\<lambda>k. True) (map fst (objects s)) @
        map (\<lambda>i. next_object_id s + int i) [0..<nat (next_object_id ?s' - next_object_id s)]"
      using True by (simp add: comp_def)
    then have eQ: "\<exists>Q. map fst (objects ?s') = filter Q (map fst (objects s)) @
        map (\<lambda>i. next_object_id s + int i) [0..<nat (next_object_id ?s' - next_object_id s)]"
      by (rule exI[of _ "\<lambda>k. True"])
    have le: "next_object_id s \<le> next_object_id ?s'" by simp
    have m: "max_disappeared ?s' = max_disappeared s" by simp
    from u i m le eQ show ?thesis by blast
  next
    case False
    define s' where "s' = state_of (update s detections)"
    note ef = update_assoc_effects[OF inv False ne, folded s'_def]
    have u: "update s detections = Inr s'" by (rule ef(1))
    have i: "tracker_inv s'" by (rule ef(2))
    have n: "next_object_id s' = next_object_id s + int (length (unused_cols s detections))"
      by (rule ef(3))
    have m: "max_disappeared s' = max_disappeared s" by (rule ef(4))
    have k: "map fst (objects s') =
       filter (\<lambda>k. \<not> (k \<in> set (unmatched_ids s detections) \<and> expired s k)) (map fst (objects s)) @
       map (\<lambda>i. next_object_id s + int i) [0..<length (unused_cols s detections)]"
      by (rule ef(5))
    have "nat (next_object_id s' - next_object_id s) = length (unused_cols s detections)"
      using n by simp
    with k have "map fst (objects s') =
       filter (\<lambda>k. \<not> (k \<in> set (unmatched_ids s detections) \<and> expired s k)) (map fst (objects s)) @
       map (\<lambda>i. next_object_id s + int i) [0..<nat (next_object_id s' - next_object_id s)]"
      by simp
    then have eQ: "\<exists>Q. map fst (objects s') = filter Q (map fst (objects s)) @
        map (\<lambda>i. next_object_id s + int i) [0..<nat (next_object_id s' - next_object_id s)]"
      by (rule exI[of _ "\<lambda>k. \<not> (k \<in> set (unmatched_ids s detections) \<and> expired s k)"])
    have le: "next_object_id s \<le> next_object_id s'" using n by simp
    from u i m le eQ show ?thesis by blast
  qed
qed

subsection \<open>Concrete trackers\<close>

lemma two_tracks_inv: "tracker_inv two_tracks"
  unfolding two_tracks_def by (intro register_inv init_inv)

lemma two_tracks_eq:
  "two_tracks =
     \<lparr>next_object_id = 2,
      objects = [(0, \<lparr>centroid = (0, 0), bbox = (-1, -1, 1, 1), face_id = None\<rparr>),
                 (1, \<lparr>centroid = (100, 100), bbox = (99, 99, 101, 101), face_id = None\<rparr>)],
      disappeared = [(0, 0), (1, 0)], max_disappeared = 2, face_id_map = []\<rparr>"
  by (simp add: two_tracks_def register_def init_tracker_def)

lemma counter_absent: "k \<notin> fst ` set (objects s') \<Longrightarrow> tracker_inv s' \<Longrightarrow> counter s' k = 0"
proof -
  assume a: "k \<notin> fst ` set (objects s')" and i: "tracker_inv s'"
  then have "k \<notin> fst ` set (disappeared s')" using inv_fields(3)[OF i] by simp
  then have "map_of (disappeared s') k = None" by (rule map_of_absent)
  then show ?thesis by (simp add: counter_def)
qed

lemma two_tracks_matches: "matches two_tracks [det (1, 0, 3, 2)] = [(0, 0)]"
  by (simp add: matches_def assoc_D_def assoc_rows_def two_tracks_eq tracker_eval)

subsection \<open>Invariant, counters and ids across updates\<close>

lemma deregister_inv:
  assumes inv: "tracker_inv s"
  shows "tracker_inv (state_of (deregister s k))"
proof (cases "k \<in> fst ` set (objects s)")
  case False
  then show ?thesis using inv by (simp add: deregister_absent state_of_def)
next
  case True
  then have kd: "k \<in> fst ` set (disappeared s)" using inv_fields(3)[OF inv] by simp
  let ?s1 = "s\<lparr>objects := AList.delete k (objects s),
                 disappeared := AList.delete k (disappeared s),
                 face_id_map := AList.delete k (face_id_map s)\<rparr>"
  have e: "state_of (deregister s k) = ?s1"
    using deregister_present[OF True kd] by (simp add: state_of_def)
  have "tracker_inv ?s1"
  proof (rule invI)
    show "distinct (map fst (objects ?s1))" using inv_fields(1)[OF inv] by (simp add: distinct_delete)
    show "distinct (map fst (disappeared ?s1))" using inv_fields(2)[OF inv] by (simp add: distinct_delete)
    show "fst ` set (objects ?s1) = fst ` set (disappeared ?s1)"
      using inv_fields(3)[OF inv] by (simp add: dom_delete)
    show "\<And>k'. k' \<in> fst ` set (objects ?s1) \<Longrightarrow> k' < next_object_id ?s1"
      using inv_fields(4)[OF inv] by (simp add: dom_delete)
    show "\<And>c. c \<in> snd ` set (disappeared ?s1) \<Longrightarrow> 0 \<le> c"
    proof -
      fix c assume "c \<in> snd ` set (disappeared ?s1)"
      then have "c \<in> snd ` set (disappeared s)"
        using snd_set_delete[of k "disappeared s"] by auto
      then show "0 \<le> c" by (rule inv_fields(5)[OF inv])
    qed
  qed
  then show ?thesis unfolding e .
qed

lemma update_counter_bound:
  assumes inv: "tracker_inv s" and mx: "0 \<le> max_disappeared s"
    and u: "update s detections = Inr s'" and k: "k \<in> fst ` set (objects s')"
  shows "counter s' k \<le> max_disappeared s'"
proof (cases "detections = []")
  case True
  from update_empty[OF inv] obtain s1 where
    u1: "update s [] = Inr s1" and
    o: "objects s1 = filter (\<lambda>p. counter s (fst p) + 1 \<le> max_disappeared s) (objects s)" and
    c: "\<And>k. k \<in> fst ` set (objects s1) \<Longrightarrow> counter s1 k = counter s k + 1" and
    m: "max_disappeared s1 = max_disappeared s" by blast
  from u u1 True have e: "s1 = s'" by simp
  from k have "counter s k + 1 \<le> max_disappeared s" unfolding e[symmetric] o by auto
  with c[of k] k m show ?thesis unfolding e by simp
next
  case ne: False
  show ?thesis
  proof (cases "objects s = []")
    case True
    let ?ics = "map (\<lambda>det. centroid_of (det_bbox det)) detections"
    let ?ibs = "map det_bbox detections"
    have e: "s' = register_cols ?ics ?ibs [0..<length detections] s"
      using update_no_tracks[OF True ne] u by simp
    have "\<forall>k \<in> fst ` set (objects s). k < next_object_id s" using True by simp
    from register_cols_objects[OF this, of ?ics ?ibs "[0..<length detections]"]
    have "objects s' = map (\<lambda>i. (next_object_id s + int i, new_track (?ics ! i) (?ibs ! i)))
                  [0..<length detections]"
      unfolding e using True by simp
    with k obtain i where i: "i < length detections" "k = next_object_id s + int i" by auto
    have "map_of (disappeared s') k = Some 0"
      unfolding e register_cols_disappeared using i by simp
    then have "counter s' k = 0" by (rule counter_present)
    with mx show ?thesis unfolding e by simp
  next
    case False
    have e: "state_of (update s detections) = s'" using u by (simp add: state_of_def)
    note ef = update_assoc_effects[OF inv False ne, unfolded e]
    let ?ids = "map fst (objects s)"
    from k have "k \<in> set (map fst (objects s'))" by (simp only: set_map)
    then have "k \<in> set (filter (\<lambda>k. \<not> (k \<in> set (unmatched_ids s detections) \<and> expired s k)) ?ids)
        \<or> k \<in> set (map (\<lambda>i. next_object_id s + int i) [0..<length (unused_cols s detections)])"
      unfolding ef(5) by simp
    then have "map_of (disappeared s') k = Some 0 \<or>
        (map_of (disappeared s') k = Some (counter s k + 1) \<and> \<not> expired s k)"
    proof
      assume "k \<in> set (map (\<lambda>i. next_object_id s + int i) [0..<length (unused_cols s detections)])"
      then obtain i where i: "i < length (unused_cols s detections)" "k = next_object_id s + int i"
        by auto
      from ef(8)[rule_format, OF i(1)] i(2) show ?thesis by simp
    next
      assume "k \<in> set (filter (\<lambda>k. \<not> (k \<in> set (unmatched_ids s detections) \<and> expired s k)) ?ids)"
      then have kin: "k \<in> set ?ids"
        and Q: "\<not> (k \<in> set (unmatched_ids s detections) \<and> expired s k)" by simp_all
      from kin obtain r where r: "r < length (objects s)" "k = ?ids ! r"
        by (auto simp: in_set_conv_nth)
      show ?thesis
      proof (cases "r \<in> fst ` set (matches s detections)")
        case True
        then obtain c where "(r, c) \<in> set (matches s detections)" by auto
        from ef(6)[rule_format, OF this] r(2) show ?thesis by simp
      next
        case nm: False
        from unmatched_row_in[OF r(1) nm] r(2)
        have kU: "k \<in> set (unmatched_ids s detections)" by simp
        with Q have ne: "\<not> expired s k" by simp
        from ef(7)[rule_format, OF kU] ne show ?thesis by simp
      qed
    qed
    then show ?thesis
    proof
      assume "map_of (disappeared s') k = Some 0"
      then have "counter s' k = 0" by (rule counter_present)
      with mx ef(4) show ?thesis by simp
    next
      assume a: "map_of (disappeared s') k = Some (counter s k + 1) \<and> \<not> expired s k"
      then have "counter s' k = counter s k + 1" using counter_present by blast
      with a ef(4) show ?thesis by (simp add: expired_def)
    qed
  qed
qed

lemma fresh_range_append_nat:
  "map (\<lambda>i. a + int i) [0..<n] @ map (\<lambda>i. a + int n + int i) [0..<m] =
   map (\<lambda>i. a + int i) [0..<n + m]"
proof (induction m)
  case 0
  then show ?case by simp
next
  case (Suc m)
  have "map (\<lambda>i. a + int i) [0..<n + Suc m] =
        map (\<lambda>i. a + int i) [0..<n + m] @ [a + int (n + m)]" by simp
  also have "\<dots> = map (\<lambda>i. a + int i) [0..<n] @ map (\<lambda>i. a + int n + int i) [0..<m] @
        [a + int n + int m]"
    unfolding Suc.IH[symmetric] by simp
  also have "map (\<lambda>i. a + int n + int i) [0..<m] @ [a + int n + int m] =
        map (\<lambda>i. a + int n + int i) [0..<Suc m]" by simp
  finally show ?case by simp
qed

lemma fresh_range_append:
  assumes "a \<le> b" "b \<le> c"
  shows "map (\<lambda>i. a + int i) [0..<nat (b - a)] @ map (\<lambda>i. b + int i) [0..<nat (c - b)] =
         map (\<lambda>i. a + int i) [0..<nat (c - a)]"
proof -
  have nm: "nat (c - a) = nat (b - a) + nat (c - b)" using assms by simp
  have b: "a + int (nat (b - a)) = b" using assms by simp
  show ?thesis
    using fresh_range_append_nat[of a "nat (b - a)" "nat (c - b)"] unfolding nm b .
qed

lemma fresh_range_sorted: "sorted_wrt (<) (map (\<lambda>i. a + int i) [0..<n])"
proof -
  have "sorted_wrt (\<lambda>x y. a + int x < a + int y) [0..<n]"
    unfolding sorted_wrt_iff_nth_less by simp
  then show ?thesis unfolding sorted_wrt_map .
qed


lemma update_new_keys:
  assumes inv: "tracker_inv s"
  shows "\<exists>s'. update s detections = Inr s' \<and> tracker_inv s' \<and>
     next_object_id s \<le> next_object_id s' \<and>
     filter (\<lambda>k. map_of (objects s) k = None) (map fst (objects s')) =
       map (\<lambda>i. next_object_id s + int i) [0..<nat (next_object_id s' - next_object_id s)] \<and>
     fst ` set (objects s') \<subseteq>
       fst ` set (objects s) \<union> {k. next_object_id s \<le> k \<and> k < next_object_id s'}"
proof -
  from update_total[OF inv, of detections] obtain s' Q where
    u: "update s detections = Inr s'" and i: "tracker_inv s'" and
    le: "next_object_id s \<le> next_object_id s'" and
    k: "map fst (objects s') = filter Q (map fst (objects s)) @
        map (\<lambda>i. next_object_id s + int i) [0..<nat (next_object_id s' - next_object_id s)]"
    by blast
  let ?new = "map (\<lambda>i. next_object_id s + int i) [0..<nat (next_object_id s' - next_object_id s)]"
  have old: "filter (\<lambda>k. map_of (objects s) k = None) (filter Q (map fst (objects s))) = []"
    unfolding filter_empty_conv using map_of_None_iff[of "objects s"] by auto
  have "\<And>k. k \<in> set ?new \<Longrightarrow> map_of (objects s) k = None"
  proof -
    fix k assume "k \<in> set ?new"
    then have "next_object_id s \<le> k" by auto
    then have "k \<notin> fst ` set (objects s)" using inv_fields(4)[OF inv, of k] by auto
    then show "map_of (objects s) k = None" by (rule map_of_absent)
  qed
  then have new: "filter (\<lambda>k. map_of (objects s) k = None) ?new = ?new"
    unfolding filter_id_conv by blast
  have f: "filter (\<lambda>k. map_of (objects s) k = None) (map fst (objects s')) = ?new"
    unfolding k filter_append old new by simp
  have "set (map fst (objects s')) \<subseteq>
       set (map fst (objects s)) \<union> {k. next_object_id s \<le> k \<and> k < next_object_id s'}"
    unfolding k by auto
  then have sub: "fst ` set (objects s') \<subseteq>
       fst ` set (objects s) \<union> {k. next_object_id s \<le> k \<and> k < next_object_id s'}"
    by (simp only: set_map)
  from u i le f sub show ?thesis by blast
qed

lemma run_updates_ids:
  assumes "tracker_inv s"
  shows "\<exists>s'. run_updates s frames = Inr s' \<and> tracker_inv s' \<and>
     next_object_id s \<le> next_object_id s' \<and>
     assigned_ids s frames =
       map (\<lambda>i. next_object_id s + int i) [0..<nat (next_object_id s' - next_object_id s)] \<and>
     fst ` set (objects s') \<subseteq>
       fst ` set (objects s) \<union> {k. next_object_id s \<le> k \<and> k < next_object_id s'}"
  using assms
proof (induction frames arbitrary: s)
  case Nil
  then show ?case by simp
next
  case (Cons d frames)
  from update_new_keys[OF Cons.prems, of d] obtain s1 where
    u: "update s d = Inr s1" and i1: "tracker_inv s1" and
    le1: "next_object_id s \<le> next_object_id s1" and
    f1: "filter (\<lambda>k. map_of (objects s) k = None) (map fst (objects s1)) =
       map (\<lambda>i. next_object_id s + int i) [0..<nat (next_object_id s1 - next_object_id s)]" and
    sub1: "fst ` set (objects s1) \<subseteq>
       fst ` set (objects s) \<union> {k. next_object_id s \<le> k \<and> k < next_object_id s1}"
    by blast
  from Cons.IH[OF i1] obtain s' where
    r: "run_updates s1 frames = Inr s'" and i': "tracker_inv s'" and
    le2: "next_object_id s1 \<le> next_object_id s'" and
    f2: "assigned_ids s1 frames =
       map (\<lambda>i. next_object_id s1 + int i) [0..<nat (next_object_id s' - next_object_id s1)]" and
    sub2: "fst ` set (objects s') \<subseteq>
       fst ` set (objects s1) \<union> {k. next_object_id s1 \<le> k \<and> k < next_object_id s'}"
    by blast
  have r': "run_updates s (d # frames) = Inr s'" using u r by simp
  have le: "next_object_id s \<le> next_object_id s'" using le1 le2 by simp
  have f: "assigned_ids s (d # frames) =
       map (\<lambda>i. next_object_id s + int i) [0..<nat (next_object_id s' - next_object_id s)]"
  proof -
    have "assigned_ids s (d # frames) =
        filter (\<lambda>k. map_of (objects s) k = None) (map fst (objects s1)) @ assigned_ids s1 frames"
      by (simp add: u)
    also have "\<dots> = map (\<lambda>i. next_object_id s + int i) [0..<nat (next_object_id s1 - next_object_id s)] @
        map (\<lambda>i. next_object_id s1 + int i) [0..<nat (next_object_id s' - next_object_id s1)]"
      by (simp only: f1 f2)
    also have "\<dots> = map (\<lambda>i. next_object_id s + int i) [0..<nat (next_object_id s' - next_object_id s)]"
      using le1 le2 by (rule fresh_range_append)
    finally show ?thesis .
  qed
  have sub: "fst ` set (objects s') \<subseteq>
       fst ` set (objects s) \<union> {k. next_object_id s \<le> k \<and> k < next_object_id s'}"
  proof
    fix k assume "k \<in> fst ` set (objects s')"
    with sub2 have "k \<in> fst ` set (objects s1) \<or> (next_object_id s1 \<le> k \<and> k < next_object_id s')"
      by blast
    then show "k \<in> fst ` set (objects s) \<union> {k. next_object_id s \<le> k \<and> k < next_object_id s'}"
    proof
      assume "k \<in> fst ` set (objects s1)"
      with sub1 have "k \<in> fst ` set (objects s) \<or> (next_object_id s \<le> k \<and> k < next_object_id s1)"
        by blast
      with le2 show ?thesis by auto
    next
      assume "next_object_id s1 \<le> k \<and> k < next_object_id s'"
      with le1 show ?thesis by auto
    qed
  qed
  from r' i' le f sub show ?case by blast
qed

lemma deregister_next:
  "next_object_id (state_of (deregister s k)) = next_object_id s"
proof (cases "map_of (objects s) k = None")
  case True
  then show ?thesis by (simp add: deregister_def state_of_def)
next
  case False
  then show ?thesis by (simp add: deregister_def state_of_def Let_def)
qed

lemma run_updates_old_ids:
  assumes inv: "tracker_inv s" and k: "k < next_object_id s" "k \<notin> fst ` set (objects s)"
  shows "k \<notin> set (assigned_ids s frames)"
    and "\<And>s'. run_updates s frames = Inr s' \<Longrightarrow> k \<notin> fst ` set (objects s')"
proof -
  from run_updates_ids[OF inv, of frames] obtain s1 where
    r: "run_updates s frames = Inr s1" and
    f: "assigned_ids s frames =
       map (\<lambda>i. next_object_id s + int i) [0..<nat (next_object_id s1 - next_object_id s)]" and
    sub: "fst ` set (objects s1) \<subseteq>
       fst ` set (objects s) \<union> {k. next_object_id s \<le> k \<and> k < next_object_id s1}"
    by blast
  show "k \<notin> set (assigned_ids s frames)" unfolding f using k(1) by auto
  show "\<And>s'. run_updates s frames = Inr s' \<Longrightarrow> k \<notin> fst ` set (objects s')"
  proof -
    fix s' assume "run_updates s frames = Inr s'"
    with r have "s' = s1" by simp
    with sub k show "k \<notin> fst ` set (objects s')" by auto
  qed
qed

subsection \<open>The global greedy matching\<close>

lemma find_filter_hd:
  "find P xs = (case filter P xs of [] \<Rightarrow> None | x # _ \<Rightarrow> Some x)"
  by (induction xs) auto

lemma concat_single_row:
  "r < n \<Longrightarrow> concat (map (\<lambda>r'. if r' = r then g r' else []) [0..<n]) = g r"
proof (induction n)
  case 0
  then show ?case by simp
next
  case (Suc n)
  show ?case
  proof (cases "r = n")
    case True
    have "map (\<lambda>r'. if r' = r then g r' else []) [0..<n] = map (\<lambda>r'. []) [0..<n]"
      using True by (intro map_cong refl) auto
    then have "concat (map (\<lambda>r'. if r' = r then g r' else []) [0..<n]) = []" by simp
    with True show ?thesis by simp
  next
    case False
    with Suc have "concat (map (\<lambda>r'. if r' = r then g r' else []) [0..<n]) = g r" by simp
    with False show ?thesis by simp
  qed
qed

lemma candidates_row:
  assumes "r < length D"
  shows "filter (\<lambda>p. fst p = r) (candidates D) = map (\<lambda>c. (r, c)) [0..<length (D ! r)]"
proof -
  have a: "filter (\<lambda>p. fst p = r) (map (\<lambda>c. (r', c)) cs) =
      (if r' = r then map (\<lambda>c. (r', c)) cs else [])" for r' and cs :: "nat list"
    by (induction cs) auto
  have "filter (\<lambda>p. fst p = r) (candidates D) =
      concat (map (\<lambda>r'. filter (\<lambda>p. fst p = r) (map (\<lambda>c. (r', c)) [0..<length (D ! r')]))
        [0..<length D])"
    unfolding candidates_def filter_concat map_map comp_def ..
  also have "\<dots> =
      concat (map (\<lambda>r'. if r' = r then map (\<lambda>c. (r', c)) [0..<length (D ! r')] else [])
        [0..<length D])"
    unfolding a ..
  also have "\<dots> = map (\<lambda>c. (r, c)) [0..<length (D ! r)]"
    using assms by (rule concat_single_row)
  finally show ?thesis .
qed

lemma first_index_hd_filter:
  assumes "x \<in> set xs"
  shows "hd (filter (\<lambda>c. xs ! c = x) [0..<length xs]) = first_index x xs"
proof -
  let ?i = "first_index x xs"
  from first_index_in[OF assms] have i: "?i < length xs" and at: "xs ! ?i = x"
    and before: "\<And>j. j < ?i \<Longrightarrow> xs ! j \<noteq> x" by auto
  have "[0..<length xs] = [0..<?i] @ [?i..<length xs]"
    using i by (metis le_add_diff_inverse less_imp_le_nat upt_add_eq_append zero_le)
  also have "[?i..<length xs] = ?i # [Suc ?i..<length xs]" using i by (rule upt_conv_Cons)
  finally have sp: "[0..<length xs] = [0..<?i] @ ?i # [Suc ?i..<length xs]" .
  have "filter (\<lambda>c. xs ! c = x) [0..<?i] = []"
    unfolding filter_empty_conv using before by auto
  then have "filter (\<lambda>c. xs ! c = x) [0..<length xs] =
      ?i # filter (\<lambda>c. xs ! c = x) [Suc ?i..<length xs]"
    unfolding sp using at by simp
  then show ?thesis by simp
qed

lemma sort_key_hd_first_min:
  fixes f :: "'a \<Rightarrow> int"
  assumes ne: "R \<noteq> []" and mn: "\<forall>y \<in> set R. m \<le> f y" and ex: "\<exists>y \<in> set R. f y = m"
  shows "hd (sort_key f R) = hd (filter (\<lambda>y. f y = m) R)"
proof -
  let ?ys = "sort_key f R"
  have "set ?ys = set R" by simp
  with ne have "?ys \<noteq> []" by (metis set_empty)
  then obtain y0 ys' where ys: "?ys = y0 # ys'" by (cases ?ys) auto
  have srt: "sorted (map f ?ys)" by simp
  from ex obtain y1 where y1: "y1 \<in> set R" "f y1 = m" by blast
  then have "y1 \<in> set ?ys" by simp
  with srt have "f y0 \<le> f y1" unfolding ys by auto
  moreover have "y0 \<in> set R" using ys by (metis list.set_intros(1) set_sort)
  ultimately have fy0: "f y0 = m" using mn y1(2) by force
  have "filter (\<lambda>y. f y = m) R = filter (\<lambda>y. f y = m) ?ys"
    by (rule sort_key_stable[symmetric])
  also have "\<dots> = y0 # filter (\<lambda>y. f y = m) ys'" unfolding ys using fy0 by simp
  finally have "hd (filter (\<lambda>y. f y = m) R) = y0" by simp
  moreover have "hd ?ys = y0" unfolding ys by simp
  ultimately show ?thesis by simp
qed

lemma sorted_candidates_first:
  assumes r: "r < length D" and ne: "D ! r \<noteq> []"
  shows "find (\<lambda>p. fst p = r) (sorted_candidates D) = Some (r, argmin (D ! r))"
proof -
  let ?f = "\<lambda>p. D ! fst p ! snd p"
  let ?R = "map (\<lambda>c. (r, c)) [0..<length (D ! r)]"
  let ?m = "min_list (D ! r)"
  have fl: "filter (\<lambda>p. fst p = r) (sorted_candidates D) = sort_key ?f ?R"
    unfolding sorted_candidates_def filter_sort candidates_row[OF r] ..
  have Rne: "?R \<noteq> []" using ne by simp
  have mn: "\<forall>y \<in> set ?R. ?m \<le> ?f y" using min_list_le[of _ "D ! r"] by auto
  have ex: "\<exists>y \<in> set ?R. ?f y = ?m"
  proof -
    from argmin_props(1,2)[OF ne] have "(r, argmin (D ! r)) \<in> set ?R"
      and "?f (r, argmin (D ! r)) = ?m" by auto
    then show ?thesis by blast
  qed
  have "filter (\<lambda>y. ?f y = ?m) ?R = map (\<lambda>c. (r, c)) (filter (\<lambda>c. D ! r ! c = ?m) [0..<length (D ! r)])"
    by (simp add: filter_map comp_def)
  moreover have "filter (\<lambda>c. D ! r ! c = ?m) [0..<length (D ! r)] \<noteq> []"
    unfolding filter_empty_conv using argmin_props(1,2)[OF ne] by auto
  ultimately have "hd (filter (\<lambda>y. ?f y = ?m) ?R) =
      (r, hd (filter (\<lambda>c. D ! r ! c = ?m) [0..<length (D ! r)]))"
    by (simp add: hd_map)
  also have "hd (filter (\<lambda>c. D ! r ! c = ?m) [0..<length (D ! r)]) = argmin (D ! r)"
    unfolding argmin_def by (rule first_index_hd_filter[OF min_list_in[OF ne]])
  finally have hd: "hd (sort_key ?f ?R) = (r, argmin (D ! r))"
    using sort_key_hd_first_min[OF Rne mn ex] by simp
  have "set (sort_key ?f ?R) = set ?R" by simp
  with Rne have "sort_key ?f ?R \<noteq> []" by (metis set_empty)
  with hd show ?thesis unfolding find_filter_hd fl by (cases "sort_key ?f ?R") auto
qed

lemma accept_free_argmin:
  assumes "inj_on am R" and "ur \<subseteq> R" and "fst ` set ps \<subseteq> R" and "uc = am ` ur"
    and "\<forall>p \<in> set ps. fst p \<notin> ur \<longrightarrow> find (\<lambda>q. fst q = fst p) ps = Some (fst p, am (fst p))"
  shows "set (accept_free ps ur uc) = {(r, am r) | r. r \<in> fst ` set ps \<and> r \<notin> ur}"
  using assms(2-)
proof (induction ps arbitrary: ur uc)
  case Nil
  then show ?case by simp
next
  case (Cons p ps)
  obtain r0 c0 where p: "p = (r0, c0)" by (cases p)
  note inj = assms(1)
  have rest_first: "\<forall>q \<in> set ps. fst q \<notin> ur' \<longrightarrow>
      find (\<lambda>q'. fst q' = fst q) ps = Some (fst q, am (fst q))"
    if sup: "ur \<subseteq> ur'" "r0 \<in> ur'" for ur'
  proof (intro ballI impI)
    fix q assume q: "q \<in> set ps" and nq: "fst q \<notin> ur'"
    from nq sup have "fst q \<notin> ur" and ne: "fst q \<noteq> r0" by auto
    with Cons.prems(4) q have "find (\<lambda>q'. fst q' = fst q) (p # ps) = Some (fst q, am (fst q))"
      by simp
    with ne show "find (\<lambda>q'. fst q' = fst q) ps = Some (fst q, am (fst q))"
      unfolding p by simp
  qed
  show ?case
  proof (cases "r0 \<in> ur")
    case True
    have af: "accept_free (p # ps) ur uc = accept_free ps ur uc" using True unfolding p by simp
    have "fst ` set ps \<subseteq> R" using Cons.prems(2) by auto
    from Cons.IH[OF Cons.prems(1) this Cons.prems(3) rest_first[of ur]] True
    have "set (accept_free ps ur uc) = {(r, am r) | r. r \<in> fst ` set ps \<and> r \<notin> ur}" by simp
    also have "\<dots> = {(r, am r) | r. r \<in> fst ` set (p # ps) \<and> r \<notin> ur}"
      using True unfolding p by auto
    finally show ?thesis unfolding af .
  next
    case False
    from Cons.prems(4) False have "find (\<lambda>q. fst q = r0) (p # ps) = Some (r0, am r0)"
      unfolding p by simp
    then have c0: "c0 = am r0" unfolding p by simp
    have r0R: "r0 \<in> R" using Cons.prems(2) unfolding p by simp
    have "c0 \<notin> uc"
    proof
      assume "c0 \<in> uc"
      then obtain r' where r': "r' \<in> ur" "am r' = am r0" unfolding c0 Cons.prems(3) by auto
      with Cons.prems(1) r0R inj have "r' = r0" by (auto dest: inj_onD)
      with r'(1) False show False by simp
    qed
    with False have af: "accept_free (p # ps) ur uc =
        (r0, c0) # accept_free ps (insert r0 ur) (insert c0 uc)" unfolding p by simp
    have a: "insert r0 ur \<subseteq> R" using Cons.prems(1) r0R by simp
    have b: "fst ` set ps \<subseteq> R" using Cons.prems(2) by auto
    have c: "insert c0 uc = am ` insert r0 ur" unfolding c0 Cons.prems(3) by simp
    from Cons.IH[OF a b c rest_first[of "insert r0 ur"]]
    have "set (accept_free ps (insert r0 ur) (insert c0 uc)) =
        {(r, am r) | r. r \<in> fst ` set ps \<and> r \<notin> insert r0 ur}" by auto
    then have "set (accept_free (p # ps) ur uc) =
        insert (r0, am r0) {(r, am r) | r. r \<in> fst ` set ps \<and> r \<notin> insert r0 ur}"
      unfolding af c0 by simp
    also have "\<dots> = {(r, am r) | r. r \<in> fst ` set (p # ps) \<and> r \<notin> ur}"
      using False unfolding p by auto
    finally show ?thesis .
  qed
qed

lemma candidates_rows:
  "fst ` set (candidates D) \<subseteq> {0..<length D}"
  by (auto simp: candidates_def)

lemma candidates_row_in:
  "r < length D \<Longrightarrow> D ! r \<noteq> [] \<Longrightarrow> r \<in> fst ` set (candidates D)"
proof -
  assume r: "r < length D" and ne: "D ! r \<noteq> []"
  then have "(r, 0) \<in> set (map (\<lambda>c. (r, c)) [0..<length (D ! r)])" by auto
  then have "(r, 0) \<in> set (filter (\<lambda>p. fst p = r) (candidates D))"
    unfolding candidates_row[OF r] .
  then have "(r, 0) \<in> set (candidates D)" by simp
  then show ?thesis by force
qed

lemma spec_global_greedy_argmin:
  assumes inj: "inj_on (\<lambda>r. argmin (D ! r)) {0..<length D}"
    and ne: "\<forall>r < length D. D ! r \<noteq> []"
  shows "set (spec_global_greedy D) = {(r, argmin (D ! r)) | r. r < length D}"
proof -
  let ?ps = "sorted_candidates D"
  have rows: "fst ` set ?ps \<subseteq> {0..<length D}"
    unfolding sorted_candidates_def using candidates_rows[of D] by simp
  have first: "\<forall>p \<in> set ?ps. fst p \<notin> {} \<longrightarrow>
      find (\<lambda>q. fst q = fst p) ?ps = Some (fst p, argmin (D ! fst p))"
  proof (intro ballI impI)
    fix p assume "p \<in> set ?ps"
    with rows have r: "fst p < length D" by auto
    with ne have "D ! fst p \<noteq> []" by simp
    from sorted_candidates_first[OF r this]
    show "find (\<lambda>q. fst q = fst p) ?ps = Some (fst p, argmin (D ! fst p))" .
  qed
  have "set (accept_free ?ps {} {}) =
      {(r, argmin (D ! r)) | r. r \<in> fst ` set ?ps \<and> r \<notin> {}}"
    by (rule accept_free_argmin[OF inj _ rows _ first]) simp_all
  moreover have "fst ` set ?ps = {0..<length D}"
  proof
    show "fst ` set ?ps \<subseteq> {0..<length D}" by (rule rows)
    show "{0..<length D} \<subseteq> fst ` set ?ps"
    proof
      fix r assume "r \<in> {0..<length D}"
      then have r: "r < length D" by simp
      with ne have "D ! r \<noteq> []" by simp
      from candidates_row_in[OF r this] show "r \<in> fst ` set ?ps"
        unfolding sorted_candidates_def by simp
    qed
  qed
  ultimately show ?thesis unfolding spec_global_greedy_def by auto
qed

lemma find_inj:
  assumes inj: "inj_on am (set rows)" and r: "r \<in> set rows"
  shows "find (\<lambda>r'. am r' = am r) rows = Some r"
proof -
  from r have "\<exists>x. x \<in> set rows \<and> am x = am r" by blast
  then obtain x where f: "find (\<lambda>r'. am r' = am r) rows = Some x"
    using find_None_iff[of "\<lambda>r'. am r' = am r" rows] by (cases "find (\<lambda>r'. am r' = am r) rows") auto
  then have "x \<in> set rows" "am x = am r" by (auto simp: find_Some_iff)
  with inj r have "x = r" by (auto dest: inj_onD)
  with f show ?thesis by simp
qed

lemma matches_argmin_all:
  assumes n: "detections \<noteq> []"
    and inj: "inj_on (\<lambda>r. argmin (assoc_D s detections ! r)) {0..<length (objects s)}"
    and gate: "\<forall>r < length (objects s). min_list (assoc_D s detections ! r) \<le> 2500"
  shows "set (matches s detections) =
     {(r, argmin (assoc_D s detections ! r)) | r. r < length (objects s)}"
proof -
  let ?D = "assoc_D s detections"
  let ?am = "\<lambda>r. argmin (?D ! r)"
  have inj': "inj_on ?am (set (assoc_rows s detections))" using inj by simp
  show ?thesis
  proof (intro set_eqI iffI)
    fix x assume "x \<in> set (matches s detections)"
    then have "(fst x, snd x) \<in> set (matches s detections)" by simp
    from matches_argmin[OF this] have "fst x < length (objects s)" "snd x = ?am (fst x)" by simp_all
    then have "x = (fst x, ?am (fst x))" by (metis prod.collapse)
    with \<open>fst x < length (objects s)\<close>
    show "x \<in> {(r, ?am r) | r. r < length (objects s)}" by blast
  next
    fix x assume "x \<in> {(r, ?am r) | r. r < length (objects s)}"
    then obtain r where r: "r < length (objects s)" and x: "x = (r, ?am r)" by blast
    from r have rin: "r \<in> set (assoc_rows s detections)" by simp
    have f: "find (\<lambda>r'. ?am r' = ?am r) (assoc_rows s detections) = Some r"
      using inj' rin by (rule find_inj)
    have "?D ! r ! ?am r = min_list (?D ! r)"
      by (rule argmin_props(2)[OF assoc_D_row_nonempty[OF n r]])
    with gate r have g: "?D ! r ! ?am r \<le> 2500" by simp
    from f g have "(r, ?am r) \<in> set (matches s detections)"
      unfolding matches_iff[OF n] by simp
    then show "x \<in> set (matches s detections)" unfolding x .
  qed
qed

lemma near_tracks_eq:
  "near_tracks =
     \<lparr>next_object_id = 2,
      objects = [(0, \<lparr>centroid = (0, 0), bbox = (-1, -1, 1, 1), face_id = None\<rparr>),
                 (1, \<lparr>centroid = (10, 0), bbox = (9, -1, 11, 1), face_id = None\<rparr>)],
      disappeared = [(0, 0), (1, 0)], max_disappeared = 30, face_id_map = []\<rparr>"
  by (simp add: near_tracks_def register_def init_tracker_def)

lemma near_D_shared:
  "assoc_D near_tracks [det (0, -1, 2, 1), det (29, -1, 31, 1)] = [[1, 900], [81, 400]]"
  by (simp add: assoc_D_def near_tracks_eq tracker_eval)

lemma near_D_apart:
  "assoc_D near_tracks [det (0, -1, 2, 1), det (10, -1, 12, 1)] = [[1, 121], [81, 1]]"
  by (simp add: assoc_D_def near_tracks_eq tracker_eval)

subsection \<open>The frame processing loop\<close>

lemma resolve_object_effect:
  "\<exists>new. db_events (sys_of (resolve_object f detections s item)) = db_events s @ new \<and>
     (\<forall>e \<in> set new. ev_type e = Entry \<and> ev_face_id e \<notin> set (tracked_entries s)) \<and>
     set (tracked_entries (sys_of (resolve_object f detections s item))) =
       set (tracked_entries s) \<union> ev_face_id ` set new \<and>
     tracked_exits (sys_of (resolve_object f detections s item)) = tracked_exits s"
proof -
  obtain obj_id obj_data where item: "item = (obj_id, obj_data)" by (cases item)
  show ?thesis
  proof (cases "face_id obj_data = None \<and> length detections > 0")
    case False
    then have "resolve_object f detections s item = Inr s"
      unfolding item resolve_object_def by auto
    then show ?thesis by (simp add: sys_of_def)
  next
    case True
    show ?thesis
    proof (cases "get_embedding f (bbox obj_data)")
      case None
      with True have "resolve_object f detections s item = Inr s"
        unfolding item resolve_object_def by simp
      then show ?thesis by (simp add: sys_of_def)
    next
      case (Some emb)
      define fs1 where "fs1 =
         (case find_match f emb (known_embeddings s) of
            Some matched_id \<Rightarrow> (matched_id, s)
          | None \<Rightarrow>
              (face_label (next_face_id s),
               s\<lparr>next_face_id := next_face_id s + 1,
                 known_embeddings :=
                   AList.update (face_label (next_face_id s)) emb (known_embeddings s)\<rparr>))"
      obtain fid s1 where fs: "fs1 = (fid, s1)" by (cases fs1)
      have s1: "tracked_entries s1 = tracked_entries s" "tracked_exits s1 = tracked_exits s"
        "db_events s1 = db_events s"
        using fs unfolding fs1_def by (auto split: option.splits)
      have ro: "resolve_object f detections s item =
          (case assign_face_id (tracker s1) obj_id fid of
             Inl (e, t) \<Rightarrow> Inl (e, s1\<lparr>tracker := t\<rparr>)
           | Inr t \<Rightarrow>
               let s2 = s1\<lparr>tracker := t\<rparr> in
               if fid \<notin> set (tracked_entries s2)
               then Inr (s2\<lparr>db_events := db_events s2 @
                              [\<lparr>ev_face_id = fid, ev_type = Entry, ev_bbox = bbox obj_data,
                                ev_ok = log_event_ok f fid Entry\<rparr>],
                            tracked_entries := List.insert fid (tracked_entries s2)\<rparr>)
               else Inr s2)"
        using True Some unfolding item resolve_object_def by (simp add: fs[unfolded fs1_def])
      show ?thesis
      proof (cases "assign_face_id (tracker s1) obj_id fid")
        case (Inl et)
        then have "sys_of (resolve_object f detections s item) = s1\<lparr>tracker := snd et\<rparr>"
          unfolding ro by (cases et) (simp add: sys_of_def)
        then show ?thesis using s1 by simp
      next
        case (Inr t)
        show ?thesis
        proof (cases "fid \<in> set (tracked_entries s)")
          case True
          then have "sys_of (resolve_object f detections s item) = s1\<lparr>tracker := t\<rparr>"
            unfolding ro Inr using s1 by (simp add: sys_of_def)
          then show ?thesis using s1 by simp
        next
          case False
          let ?ev = "\<lparr>ev_face_id = fid, ev_type = Entry, ev_bbox = bbox obj_data,
                                ev_ok = log_event_ok f fid Entry\<rparr>"
          from False have r: "sys_of (resolve_object f detections s item) =
              s1\<lparr>tracker := t, db_events := db_events s1 @ [?ev],
                 tracked_entries := List.insert fid (tracked_entries s1)\<rparr>"
            unfolding ro Inr using s1 by (simp add: sys_of_def)
          show ?thesis
            unfolding r using s1 False by (intro exI[of _ "[?ev]"]) auto
        qed
      qed
    qed
  qed
qed

lemma resolve_all_effect:
  "\<exists>new. db_events (sys_of (resolve_all f detections items s)) = db_events s @ new \<and>
     (\<forall>e \<in> set new. ev_type e = Entry \<and> ev_face_id e \<notin> set (tracked_entries s)) \<and>
     set (tracked_entries (sys_of (resolve_all f detections items s))) =
       set (tracked_entries s) \<union> ev_face_id ` set new \<and>
     tracked_exits (sys_of (resolve_all f detections items s)) = tracked_exits s"
proof (induction items arbitrary: s)
  case Nil
  show ?case by (simp add: sys_of_def)
next
  case (Cons item items)
  from resolve_object_effect[of f detections s item] obtain new1 where
    d1: "db_events (sys_of (resolve_object f detections s item)) = db_events s @ new1" and
    e1: "\<forall>e \<in> set new1. ev_type e = Entry \<and> ev_face_id e \<notin> set (tracked_entries s)" and
    t1: "set (tracked_entries (sys_of (resolve_object f detections s item))) =
       set (tracked_entries s) \<union> ev_face_id ` set new1" and
    x1: "tracked_exits (sys_of (resolve_object f detections s item)) = tracked_exits s"
    by blast
  show ?case
  proof (cases "resolve_object f detections s item")
    case (Inl e)
    then have "sys_of (resolve_all f detections (item # items) s) =
        sys_of (resolve_object f detections s item)" by (simp add: sys_of_def)
    with d1 e1 t1 x1 show ?thesis by auto
  next
    case (Inr s1)
    then have eq1: "sys_of (resolve_object f detections s item) = s1" by (simp add: sys_of_def)
    have eq: "resolve_all f detections (item # items) s = resolve_all f detections items s1"
      using Inr by simp
    from Cons.IH[of s1] obtain new2 where
      d2: "db_events (sys_of (resolve_all f detections items s1)) = db_events s1 @ new2" and
      e2: "\<forall>e \<in> set new2. ev_type e = Entry \<and> ev_face_id e \<notin> set (tracked_entries s1)" and
      t2: "set (tracked_entries (sys_of (resolve_all f detections items s1))) =
         set (tracked_entries s1) \<union> ev_face_id ` set new2" and
      x2: "tracked_exits (sys_of (resolve_all f detections items s1)) = tracked_exits s1"
      by blast
    have a: "db_events (sys_of (resolve_all f detections (item # items) s)) =
        db_events s @ (new1 @ new2)" unfolding eq d2 using d1 eq1 by simp
    have b: "\<forall>e \<in> set (new1 @ new2). ev_type e = Entry \<and> ev_face_id e \<notin> set (tracked_entries s)"
      using e1 e2 t1 eq1 by auto
    have c: "set (tracked_entries (sys_of (resolve_all f detections (item # items) s))) =
        set (tracked_entries s) \<union> ev_face_id ` set (new1 @ new2)"
      unfolding eq t2 using t1 eq1 by auto
    have d: "tracked_exits (sys_of (resolve_all f detections (item # items) s)) = tracked_exits s"
      unfolding eq x2 using x1 eq1 by simp
    from a b c d show ?thesis by blast
  qed
qed

lemma entry_faces_append [simp]: "entry_faces (xs @ ys) = entry_faces xs \<union> entry_faces ys"
  by (auto simp: entry_faces_def)

lemma exit_faces_append [simp]: "exit_faces (xs @ ys) = exit_faces xs \<union> exit_faces ys"
  by (auto simp: exit_faces_def)

lemma entry_faces_Nil [simp]: "entry_faces [] = {}" and exit_faces_Nil [simp]: "exit_faces [] = {}"
  by (simp_all add: entry_faces_def exit_faces_def)

lemma entry_faces_all: "\<forall>e \<in> set evs. ev_type e = Entry \<Longrightarrow> entry_faces evs = ev_face_id ` set evs"
  and exit_faces_none: "\<forall>e \<in> set evs. ev_type e = Entry \<Longrightarrow> exit_faces evs = {}"
  by (auto simp: entry_faces_def exit_faces_def)

lemma exit_faces_all: "\<forall>e \<in> set evs. ev_type e = Exit \<Longrightarrow> exit_faces evs = ev_face_id ` set evs"
  and entry_faces_none: "\<forall>e \<in> set evs. ev_type e = Exit \<Longrightarrow> entry_faces evs = {}"
  by (auto simp: entry_faces_def exit_faces_def)

lemma map_mem: "x \<in> set xs \<Longrightarrow> g x \<in> set (map g xs)"
  by simp

lemma current_face_ids_mem:
  assumes "item \<in> set (objects (tracker s))" "face_id (snd item) = Some fid" "fid \<noteq> []"
  shows "fid \<in> set (current_face_ids s)"
proof -
  let ?g = "\<lambda>item. case face_id (snd item) of
                             None \<Rightarrow> []
                           | Some fid \<Rightarrow> if fid = [] then [] else [fid]"
  have a: "fid \<in> set (?g item)" using assms(2,3) by simp
  have "?g item \<in> set (map ?g (objects (tracker s)))" using assms(1) by (rule map_mem)
  with a have "fid \<in> \<Union> (set ` set (map ?g (objects (tracker s))))" by blast
  then show ?thesis unfolding current_face_ids_def set_concat .
qed

lemma exit_face_effect:
  "tracker (exit_face f s fid) = tracker s \<and>
   tracked_entries (exit_face f s fid) = tracked_entries s \<and>
   (\<exists>new. db_events (exit_face f s fid) = db_events s @ new \<and>
      (\<forall>e \<in> set new. ev_type e = Exit \<and> ev_face_id e = fid \<and>
          (\<exists>item \<in> set (objects (tracker s)). face_id (snd item) = Some fid)) \<and>
      set (tracked_exits (exit_face f s fid)) = set (tracked_exits s) \<union> ev_face_id ` set new)"
proof (cases "find (\<lambda>item. face_id (snd item) = Some fid) (objects (tracker s))")
  case None
  then have "exit_face f s fid = s" by (simp add: exit_face_def)
  then show ?thesis by simp
next
  case (Some item)
  then have it: "item \<in> set (objects (tracker s))" "face_id (snd item) = Some fid"
    by (auto simp: find_Some_iff)
  let ?ev = "\<lparr>ev_face_id = fid, ev_type = Exit, ev_bbox = bbox (snd item),
                 ev_ok = log_event_ok f fid Exit\<rparr>"
  have e: "exit_face f s fid =
      s\<lparr>db_events := db_events s @ [?ev], tracked_exits := List.insert fid (tracked_exits s)\<rparr>"
    using Some by (simp add: exit_face_def)
  have "db_events (exit_face f s fid) = db_events s @ [?ev] \<and>
      (\<forall>e \<in> set [?ev]. ev_type e = Exit \<and> ev_face_id e = fid \<and>
          (\<exists>item \<in> set (objects (tracker s)). face_id (snd item) = Some fid)) \<and>
      set (tracked_exits (exit_face f s fid)) = set (tracked_exits s) \<union> ev_face_id ` set [?ev]"
    unfolding e using it by auto
  then have "\<exists>new. db_events (exit_face f s fid) = db_events s @ new \<and>
      (\<forall>e \<in> set new. ev_type e = Exit \<and> ev_face_id e = fid \<and>
          (\<exists>item \<in> set (objects (tracker s)). face_id (snd item) = Some fid)) \<and>
      set (tracked_exits (exit_face f s fid)) = set (tracked_exits s) \<union> ev_face_id ` set new"
    by (rule exI[of _ "[?ev]"])
  then show ?thesis unfolding e by simp
qed

lemma exit_all_effect:
  "tracker (exit_all f fids s) = tracker s \<and>
   tracked_entries (exit_all f fids s) = tracked_entries s \<and>
   (\<exists>new. db_events (exit_all f fids s) = db_events s @ new \<and>
      (\<forall>e \<in> set new. ev_type e = Exit \<and> ev_face_id e \<in> set fids \<and>
          (\<exists>item \<in> set (objects (tracker s)). face_id (snd item) = Some (ev_face_id e))) \<and>
      set (tracked_exits (exit_all f fids s)) = set (tracked_exits s) \<union> ev_face_id ` set new)"
proof (induction fids arbitrary: s)
  case Nil
  show ?case by simp
next
  case (Cons fid fids)
  let ?s1 = "exit_face f s fid"
  from exit_face_effect[of f s fid] obtain new1 where
    t1: "tracker ?s1 = tracker s" and n1: "tracked_entries ?s1 = tracked_entries s" and
    d1: "db_events ?s1 = db_events s @ new1" and
    e1: "\<forall>e \<in> set new1. ev_type e = Exit \<and> ev_face_id e = fid \<and>
          (\<exists>item \<in> set (objects (tracker s)). face_id (snd item) = Some fid)" and
    x1: "set (tracked_exits ?s1) = set (tracked_exits s) \<union> ev_face_id ` set new1"
    by blast
  from Cons.IH[of ?s1] obtain new2 where
    t2: "tracker (exit_all f fids ?s1) = tracker ?s1" and
    n2: "tracked_entries (exit_all f fids ?s1) = tracked_entries ?s1" and
    d2: "db_events (exit_all f fids ?s1) = db_events ?s1 @ new2" and
    e2: "\<forall>e \<in> set new2. ev_type e = Exit \<and> ev_face_id e \<in> set fids \<and>
          (\<exists>item \<in> set (objects (tracker ?s1)). face_id (snd item) = Some (ev_face_id e))" and
    x2: "set (tracked_exits (exit_all f fids ?s1)) = set (tracked_exits ?s1) \<union> ev_face_id ` set new2"
    by blast
  have a: "db_events (exit_all f (fid # fids) s) = db_events s @ (new1 @ new2)"
    using d1 d2 by simp
  have b: "\<forall>e \<in> set (new1 @ new2). ev_type e = Exit \<and> ev_face_id e \<in> set (fid # fids) \<and>
          (\<exists>item \<in> set (objects (tracker s)). face_id (snd item) = Some (ev_face_id e))"
    using e1 e2 unfolding t1 by auto
  have c: "set (tracked_exits (exit_all f (fid # fids) s)) =
      set (tracked_exits s) \<union> ev_face_id ` set (new1 @ new2)"
    using x1 x2 by auto
  have "\<exists>new. db_events (exit_all f (fid # fids) s) = db_events s @ new \<and>
      (\<forall>e \<in> set new. ev_type e = Exit \<and> ev_face_id e \<in> set (fid # fids) \<and>
          (\<exists>item \<in> set (objects (tracker s)). face_id (snd item) = Some (ev_face_id e))) \<and>
      set (tracked_exits (exit_all f (fid # fids) s)) = set (tracked_exits s) \<union> ev_face_id ` set new"
    by (intro exI[of _ "new1 @ new2"] conjI a b c)
  moreover have "tracker (exit_all f (fid # fids) s) = tracker s" using t1 t2 by simp
  moreover have "tracked_entries (exit_all f (fid # fids) s) = tracked_entries s"
    using n1 n2 by simp
  ultimately show ?case by blast
qed

lemma exit_all_exited_faces:
  "\<exists>new. db_events (exit_all f (exited_faces s) s) = db_events s @ new \<and>
      (\<forall>e \<in> set new. ev_type e = Exit \<and> ev_face_id e = [] \<and>
          ev_face_id e \<in> set (tracked_entries s)) \<and>
      set (tracked_exits (exit_all f (exited_faces s) s)) =
        set (tracked_exits s) \<union> ev_face_id ` set new \<and>
      tracked_entries (exit_all f (exited_faces s) s) = tracked_entries s"
proof -
  from exit_all_effect[of f "exited_faces s" s] obtain new where
    n: "tracked_entries (exit_all f (exited_faces s) s) = tracked_entries s" and
    d: "db_events (exit_all f (exited_faces s) s) = db_events s @ new" and
    e: "\<forall>e \<in> set new. ev_type e = Exit \<and> ev_face_id e \<in> set (exited_faces s) \<and>
          (\<exists>item \<in> set (objects (tracker s)). face_id (snd item) = Some (ev_face_id e))" and
    x: "set (tracked_exits (exit_all f (exited_faces s) s)) = set (tracked_exits s) \<union> ev_face_id ` set new"
    by blast
  have e': "\<forall>e \<in> set new. ev_type e = Exit \<and> ev_face_id e = [] \<and>
          ev_face_id e \<in> set (tracked_entries s)"
  proof
    fix ev assume ev: "ev \<in> set new"
    with e have ty: "ev_type ev = Exit" and ex: "ev_face_id ev \<in> set (exited_faces s)"
      and it: "\<exists>item \<in> set (objects (tracker s)). face_id (snd item) = Some (ev_face_id ev)"
      by blast+
    from ex have ent: "ev_face_id ev \<in> set (tracked_entries s)"
      and nc: "ev_face_id ev \<notin> set (current_face_ids s)" by (simp_all add: exited_faces_def)
    have "ev_face_id ev = []"
    proof (rule ccontr)
      assume "ev_face_id ev \<noteq> []"
      with it current_face_ids_mem have "ev_face_id ev \<in> set (current_face_ids s)" by blast
      with nc show False by simp
    qed
    with ty ent show "ev_type ev = Exit \<and> ev_face_id ev = [] \<and>
          ev_face_id ev \<in> set (tracked_entries s)" by simp
  qed
  show ?thesis by (intro exI[of _ new] conjI d e' x n)
qed

lemma frame_effect_none:
  "db_events s' = db_events s \<Longrightarrow> tracked_entries s' = tracked_entries s \<Longrightarrow>
   tracked_exits s' = tracked_exits s \<Longrightarrow> frame_effect s s' []"
  by (simp add: frame_effect_def)

lemma process_frame_effect: "\<exists>new. frame_effect s (sys_of (process_frame s f)) new"
proof -
  let ?s1 = "s\<lparr>frame_count := frame_count s + 1\<rparr>"
  let ?det = "if frame_count ?s1 mod (skip_frames ?s1 + 1) = 0 then detect_faces f else []"
  show ?thesis
  proof (cases "skip_frames s + 1 = 0")
    case True
    then have "sys_of (process_frame s f) = ?s1"
      by (simp add: process_frame_def sys_of_def Let_def)
    then have "frame_effect s (sys_of (process_frame s f)) []"
      by (intro frame_effect_none) simp_all
    then show ?thesis ..
  next
    case nz: False
    show ?thesis
    proof (cases "update (tracker ?s1) ?det")
      case (Inl et)
      obtain e t where et: "et = (e, t)" by (cases et)
      have "sys_of (process_frame s f) = ?s1\<lparr>tracker := t\<rparr>"
        using nz Inl unfolding et by (simp add: process_frame_def sys_of_def Let_def)
      then have "frame_effect s (sys_of (process_frame s f)) []"
        by (intro frame_effect_none) simp_all
      then show ?thesis ..
    next
      case (Inr t)
      let ?s2 = "?s1\<lparr>tracker := t\<rparr>"
      let ?r3 = "resolve_all f ?det (objects t) ?s2"
      let ?s3 = "sys_of ?r3"
      from resolve_all_effect[of f ?det "objects t" ?s2] obtain new1 where
        d1: "db_events ?s3 = db_events s @ new1" and
        e1: "\<forall>e \<in> set new1. ev_type e = Entry \<and> ev_face_id e \<notin> set (tracked_entries s)" and
        t1: "set (tracked_entries ?s3) = set (tracked_entries s) \<union> ev_face_id ` set new1" and
        x1: "tracked_exits ?s3 = tracked_exits s"
        by auto
      have en1: "entry_faces new1 = ev_face_id ` set new1" and ex1: "exit_faces new1 = {}"
        using e1 by (simp_all add: entry_faces_all exit_faces_none)
      have pf: "process_frame s f =
          (case ?r3 of Inl e \<Rightarrow> Inl e | Inr s3 \<Rightarrow> Inr (exit_all f (exited_faces s3) s3))"
        using nz Inr by (simp add: process_frame_def Let_def)
      show ?thesis
      proof (cases ?r3)
        case (Inl es)
        then have eq: "sys_of (process_frame s f) = ?s3" unfolding pf by (simp add: sys_of_def)
        have "frame_effect s ?s3 new1"
          unfolding frame_effect_def using d1 e1 t1 x1 en1 ex1 by auto
        then show ?thesis unfolding eq ..
      next
        case (Inr s3)
        then have s3: "?s3 = s3" by (simp add: sys_of_def)
        have eq: "sys_of (process_frame s f) = exit_all f (exited_faces s3) s3"
          unfolding pf Inr by (simp add: sys_of_def)
        from exit_all_exited_faces[of f s3] obtain new2 where
          d2: "db_events (exit_all f (exited_faces s3) s3) = db_events s3 @ new2" and
          e2: "\<forall>e \<in> set new2. ev_type e = Exit \<and> ev_face_id e = [] \<and>
                 ev_face_id e \<in> set (tracked_entries s3)" and
          x2: "set (tracked_exits (exit_all f (exited_faces s3) s3)) =
                 set (tracked_exits s3) \<union> ev_face_id ` set new2" and
          t2: "tracked_entries (exit_all f (exited_faces s3) s3) = tracked_entries s3"
          by blast
        have en2: "entry_faces new2 = {}" and ex2: "exit_faces new2 = ev_face_id ` set new2"
          using e2 by (simp_all add: entry_faces_none exit_faces_all)
        have A: "db_events (exit_all f (exited_faces s3) s3) = db_events s @ (new1 @ new2)"
          using d1 d2 s3 by simp
        have B: "\<forall>e \<in> set (new1 @ new2). ev_type e = Entry \<longrightarrow>
            ev_face_id e \<notin> set (tracked_entries s)"
          using e1 e2 by auto
        have C: "\<forall>e \<in> set (new1 @ new2). ev_type e = Exit \<longrightarrow> ev_face_id e = []"
          using e1 e2 by auto
        have D: "set (tracked_entries (exit_all f (exited_faces s3) s3)) =
            set (tracked_entries s) \<union> entry_faces (new1 @ new2)"
          unfolding t2 using t1 s3 en1 en2 by simp
        have E: "set (tracked_exits (exit_all f (exited_faces s3) s3)) =
            set (tracked_exits s) \<union> exit_faces (new1 @ new2)"
          unfolding x2 using x1 s3 ex1 ex2 by simp
        have F: "exit_faces (new1 @ new2) \<subseteq> set (tracked_entries (exit_all f (exited_faces s3) s3))"
          unfolding t2 using e2 ex1 ex2 by auto
        have "frame_effect s (exit_all f (exited_faces s3) s3) (new1 @ new2)"
          unfolding frame_effect_def by (intro conjI A B C D E F)
        then show ?thesis unfolding eq ..
      qed
    qed
  qed
qed

subsection \<open>The entered and exited sets\<close>

lemmas system_eval = process_frame_def resolve_object_def exit_face_def exited_faces_def
  current_face_ids_def init_system_def frame_one_face_def frame_empty_def assign_face_id_def
  face_label_def decimal.simps digit_def same_embedding_def eval_nat_numeral

lemma frame_effect_sets:
  assumes "frame_effect s s' new" and "set (tracked_exits s) \<subseteq> set (tracked_entries s)"
  shows "set (tracked_exits s') \<subseteq> set (tracked_entries s')"
    and "set (tracked_entries s) \<subseteq> set (tracked_entries s')"
    and "set (tracked_exits s) \<subseteq> set (tracked_exits s')"
  using assms unfolding frame_effect_def by blast+

lemma process_frame_sets:
  assumes "set (tracked_exits s) \<subseteq> set (tracked_entries s)"
  shows "set (tracked_exits (sys_of (process_frame s f))) \<subseteq>
           set (tracked_entries (sys_of (process_frame s f)))"
    and "set (tracked_entries s) \<subseteq> set (tracked_entries (sys_of (process_frame s f)))"
    and "set (tracked_exits s) \<subseteq> set (tracked_exits (sys_of (process_frame s f)))"
proof -
  from process_frame_effect[of s f] obtain new where
    "frame_effect s (sys_of (process_frame s f)) new" ..
  from frame_effect_sets[OF this assms]
  show "set (tracked_exits (sys_of (process_frame s f))) \<subseteq>
           set (tracked_entries (sys_of (process_frame s f)))"
    and "set (tracked_entries s) \<subseteq> set (tracked_entries (sys_of (process_frame s f)))"
    and "set (tracked_exits s) \<subseteq> set (tracked_exits (sys_of (process_frame s f)))" .
qed

lemma run_frames_sets:
  assumes "set (tracked_exits s) \<subseteq> set (tracked_entries s)"
  shows "set (tracked_exits (sys_of (run_frames s fs))) \<subseteq>
           set (tracked_entries (sys_of (run_frames s fs))) \<and>
         set (tracked_entries s) \<subseteq> set (tracked_entries (sys_of (run_frames s fs))) \<and>
         set (tracked_exits s) \<subseteq> set (tracked_exits (sys_of (run_frames s fs)))"
  using assms
proof (induction fs arbitrary: s)
  case Nil
  then show ?case by (simp add: sys_of_def)
next
  case (Cons f fs)
  note p = process_frame_sets[OF Cons.prems, of f]
  show ?case
  proof (cases "process_frame s f")
    case (Inl es)
    then have "sys_of (run_frames s (f # fs)) = sys_of (process_frame s f)"
      by (simp add: sys_of_def)
    with p show ?thesis by simp
  next
    case (Inr s1)
    then have s1: "sys_of (process_frame s f) = s1" by (simp add: sys_of_def)
    have eq: "run_frames s (f # fs) = run_frames s1 fs" using Inr by simp
    from p(1) have "set (tracked_exits s1) \<subseteq> set (tracked_entries s1)" unfolding s1 .
    from Cons.IH[OF this] p(2,3) show ?thesis unfolding eq s1 by blast
  qed
qed

lemma run_one_face:
  "run_frames (init_system [] 0 0) [frame_one_face True, frame_empty] =
     Inr \<lparr>frame_count = 2, skip_frames = 0,
          tracker = \<lparr>next_object_id = 1, objects = [], disappeared = [], max_disappeared = 0,
                     face_id_map = []\<rparr>,
          known_embeddings = [(''FACE_0001'', 7)],
          tracked_entries = [''FACE_0001''], tracked_exits = [], next_face_id = 2,
          db_events = [\<lparr>ev_face_id = ''FACE_0001'', ev_type = Entry, ev_bbox = (0, 0, 20, 20),
                        ev_ok = True\<rparr>]\<rparr>"
  by (simp add: system_eval tracker_eval)

lemma exit_events_have_empty_id:
  assumes "db_events (sys_of (process_frame s f)) = db_events s @ new"
    and "e \<in> set new" and "ev_type e = Exit"
  shows "ev_face_id e = []"
proof -
  from process_frame_effect[of s f] obtain new' where
    fe: "frame_effect s (sys_of (process_frame s f)) new'" ..
  then have "db_events (sys_of (process_frame s f)) = db_events s @ new'"
    unfolding frame_effect_def by blast
  with assms(1) have "new' = new" by simp
  with fe assms(2,3) show ?thesis unfolding frame_effect_def by blast
qed

section \<open>Centroids and box centers\<close>

lemma py_int_half_trunc: "py_int_half a = py_int (real_of_int a / 2)"
proof (cases "0 \<le> a")
  case True
  have "\<lfloor>real_of_int a / real_of_int 2\<rfloor> = a div 2" by (rule floor_divide_of_int_eq)
  then show ?thesis using True by (simp add: py_int_half_def py_int_def)
next
  case False
  have "\<lfloor>real_of_int (- a) / real_of_int 2\<rfloor> = (- a) div 2" by (rule floor_divide_of_int_eq)
  then have "\<lceil>real_of_int a / 2\<rceil> = - ((- a) div 2)" by (simp add: ceiling_def)
  then show ?thesis using False by (simp add: py_int_half_def py_int_def)
qed

lemma centroid_of_trunc:
  "centroid_of b = (py_int (fst (spec_bbox_center b)), py_int (snd (spec_bbox_center b)))"
  by (cases b) (simp add: centroid_of_def spec_bbox_center_def py_int_half_trunc)

lemma py_int_half_even: "even a \<Longrightarrow> real_of_int (py_int_half a) = real_of_int a / 2"
proof -
  assume "even a"
  then obtain k where k: "a = 2 * k" by (auto elim: evenE)
  have "- (2 * k) div 2 = - k"
  proof -
    have "- (2 * k) = 2 * (- k)" by simp
    then show ?thesis by (simp only: nonzero_mult_div_cancel_left)
  qed
  then show ?thesis unfolding k by (simp add: py_int_half_def)
qed

lemma py_int_half_odd: "odd a \<Longrightarrow> real_of_int (py_int_half a) \<noteq> real_of_int a / 2"
proof
  assume o: "odd a" and e: "real_of_int (py_int_half a) = real_of_int a / 2"
  from e have "real_of_int (2 * py_int_half a) = real_of_int a" by simp
  then have "2 * py_int_half a = a" by (simp only: of_int_eq_iff)
  then have "even a" by (metis dvd_triv_left)
  with o show False by simp
qed

lemma py_int_half_exact_iff:
  "real_of_int (py_int_half a) = real_of_int a / 2 \<longleftrightarrow> even a"
  using py_int_half_even[of a] py_int_half_odd[of a] by blast

lemma centroid_of_exact_iff:
  assumes "b = (x1, y1, x2, y2)"
  shows "real_of_int (fst (centroid_of b)) = fst (spec_bbox_center b) \<longleftrightarrow> even (x1 + x2)"
    and "real_of_int (snd (centroid_of b)) = snd (spec_bbox_center b) \<longleftrightarrow> even (y1 + y2)"
proof -
  have c: "centroid_of b = (py_int_half (x1 + x2), py_int_half (y1 + y2))"
    unfolding assms by (simp add: centroid_of_def)
  have m: "spec_bbox_center b = (real_of_int (x1 + x2) / 2, real_of_int (y1 + y2) / 2)"
    unfolding assms by (simp add: spec_bbox_center_def)
  show "real_of_int (fst (centroid_of b)) = fst (spec_bbox_center b) \<longleftrightarrow> even (x1 + x2)"
    unfolding c m fst_conv by (rule py_int_half_exact_iff)
  show "real_of_int (snd (centroid_of b)) = snd (spec_bbox_center b) \<longleftrightarrow> even (y1 + y2)"
    unfolding c m snd_conv by (rule py_int_half_exact_iff)
qed

section \<open>The order of the candidates and the greedy matching\<close>

lemma precedes_row_major:
  "precedes D p q \<longleftrightarrow>
     D ! fst p ! snd p < D ! fst q ! snd q \<or>
     (D ! fst p ! snd p = D ! fst q ! snd q \<and> row_major p q)"
  by (simp add: precedes_def row_major_def)

lemma precedes_asym: "precedes D p q \<Longrightarrow> \<not> precedes D q p"
  unfolding precedes_def by (elim disjE conjE) simp_all

lemma precedes_irrefl: "\<not> precedes D p p"
  unfolding precedes_def by simp

lemma precedes_key_le: "precedes D p q \<Longrightarrow> D ! fst p ! snd p \<le> D ! fst q ! snd q"
  unfolding precedes_def by (elim disjE conjE) simp_all

lemma insort_key_precedes:
  assumes "sorted_wrt (precedes D) ys" and "\<forall>y \<in> set ys. row_major x y"
  shows "sorted_wrt (precedes D) (insort_key (\<lambda>p. D ! fst p ! snd p) x ys)"
  using assms
proof (induction ys)
  case Nil
  then show ?case by simp
next
  case (Cons y ys)
  let ?f = "\<lambda>p. D ! fst p ! snd p"
  from Cons.prems(1) have s: "sorted_wrt (precedes D) ys"
    and yz: "\<forall>z \<in> set ys. precedes D y z" by simp_all
  from Cons.prems(2) have xy: "row_major x y" and xz: "\<forall>z \<in> set ys. row_major x z"
    by simp_all
  show ?case
  proof (cases "?f x \<le> ?f y")
    case True
    have "precedes D x z" if z: "z \<in> set (y # ys)" for z
    proof -
      have "?f y \<le> ?f z"
      proof (cases "z = y")
        case True then show ?thesis by simp
      next
        case False
        with z have "z \<in> set ys" by simp
        with yz have "precedes D y z" by blast
        then show ?thesis by (rule precedes_key_le)
      qed
      with True have le: "?f x \<le> ?f z" by simp
      from z Cons.prems(2) have "row_major x z" by blast
      with le show ?thesis unfolding precedes_row_major by (cases "?f x < ?f z") simp_all
    qed
    then have "\<forall>z \<in> set (y # ys). precedes D x z" by blast
    with Cons.prems(1) True show ?thesis by simp
  next
    case False
    then have lt: "?f y < ?f x" by simp
    then have yx: "precedes D y x" by (simp add: precedes_def)
    have ih: "sorted_wrt (precedes D) (insort_key ?f x ys)" using s xz by (rule Cons.IH)
    have "\<forall>z \<in> set (insort_key ?f x ys). precedes D y z"
      using yx yz by (simp add: set_insort_key)
    with ih False show ?thesis by simp
  qed
qed

lemma sort_key_precedes:
  "sorted_wrt row_major xs \<Longrightarrow>
   sorted_wrt (precedes D) (sort_key (\<lambda>p. D ! fst p ! snd p) xs)"
proof (induction xs)
  case Nil
  then show ?case by simp
next
  case (Cons x xs)
  let ?f = "\<lambda>p. D ! fst p ! snd p"
  from Cons.prems have s: "sorted_wrt row_major xs" and a: "\<forall>y \<in> set xs. row_major x y"
    by simp_all
  have ih: "sorted_wrt (precedes D) (sort_key ?f xs)" using s by (rule Cons.IH)
  have a': "\<forall>y \<in> set (sort_key ?f xs). row_major x y" using a by simp
  have "sorted_wrt (precedes D) (insort_key ?f x (sort_key ?f xs))"
    using ih a' by (rule insort_key_precedes)
  then show ?case by (simp only: sort_key_simps)
qed

lemma row_sorted: "sorted_wrt row_major (map (\<lambda>c. (r, c)) [0..<k])"
proof (induction k)
  case 0
  then show ?case by simp
next
  case (Suc k)
  have "\<forall>p \<in> set (map (\<lambda>c. (r, c)) [0..<k]). row_major p (r, k)"
    by (simp add: row_major_def)
  with Suc show ?case by (simp add: sorted_wrt_append)
qed

lemma rows_sorted:
  "sorted_wrt (<) rs \<Longrightarrow>
   sorted_wrt row_major (concat (map (\<lambda>r. map (\<lambda>c. (r, c)) [0..<g r]) rs))"
proof (induction rs)
  case Nil
  then show ?case by simp
next
  case (Cons r rs)
  from Cons.prems have s: "sorted_wrt (<) rs" and lt: "\<forall>r' \<in> set rs. r < r'" by simp_all
  have ih: "sorted_wrt row_major (concat (map (\<lambda>r. map (\<lambda>c. (r, c)) [0..<g r]) rs))"
    using s by (rule Cons.IH)
  have cross: "\<forall>p \<in> set (map (\<lambda>c. (r, c)) [0..<g r]).
     \<forall>q \<in> set (concat (map (\<lambda>r. map (\<lambda>c. (r, c)) [0..<g r]) rs)). row_major p q"
    using lt by (auto simp: row_major_def)
  show ?case
    using row_sorted[of r "g r"] ih cross by (simp add: sorted_wrt_append)
qed

lemma candidates_sorted: "sorted_wrt row_major (candidates D)"
  unfolding candidates_def by (rule rows_sorted) simp

lemma sorted_candidates_precedes: "sorted_wrt (precedes D) (sorted_candidates D)"
  unfolding sorted_candidates_def using candidates_sorted by (rule sort_key_precedes)

lemma candidates_mem:
  "(r, c) \<in> set (candidates D) \<longleftrightarrow> r < length D \<and> c < length (D ! r)"
proof
  assume "(r, c) \<in> set (candidates D)"
  then show "r < length D \<and> c < length (D ! r)" by (auto simp: candidates_def)
next
  assume a: "r < length D \<and> c < length (D ! r)"
  have s: "set (candidates D) = (\<Union>r \<in> {0..<length D}. (\<lambda>c. (r, c)) ` {0..<length (D ! r)})"
    by (simp add: candidates_def)
  from a have 1: "r \<in> {0..<length D}" by simp
  from a have 2: "(r, c) \<in> (\<lambda>c. (r, c)) ` {0..<length (D ! r)}" by simp
  from 1 2 show "(r, c) \<in> set (candidates D)" unfolding s by (rule UN_I)
qed

lemma sorted_candidates_mem:
  "(r, c) \<in> set (sorted_candidates D) \<longleftrightarrow> r < length D \<and> c < length (D ! r)"
  by (simp add: sorted_candidates_def candidates_mem)

lemma accept_free_stable:
  assumes "sorted_wrt (precedes D) ps"
    and "\<forall>p \<in> set ps. p \<in> M \<longrightarrow> fst p \<notin> ur \<and> snd p \<notin> uc"
    and "\<forall>p \<in> set ps. p \<notin> M \<longrightarrow>
           fst p \<in> ur \<or> snd p \<in> uc \<or>
           (\<exists>q \<in> M \<inter> set ps. (fst q = fst p \<or> snd q = snd p) \<and> precedes D q p)"
    and "\<forall>p \<in> M. \<forall>q \<in> M. fst p = fst q \<or> snd p = snd q \<longrightarrow> p = q"
  shows "set (accept_free ps ur uc) = M \<inter> set ps"
  using assms(1-3)
proof (induction ps arbitrary: ur uc)
  case Nil
  then show ?case by simp
next
  case (Cons x ps)
  obtain row col where x: "x = (row, col)" by (cases x)
  from Cons.prems(1) have s: "sorted_wrt (precedes D) ps"
    and xz: "\<forall>z \<in> set ps. precedes D x z" by simp_all
  have xnot: "x \<notin> set ps"
  proof
    assume "x \<in> set ps"
    with xz have "precedes D x x" by blast
    then show False by (simp add: precedes_irrefl)
  qed
  show ?case
  proof (cases "x \<in> M")
    case True
    with Cons.prems(2) have free: "row \<notin> ur" "col \<notin> uc" unfolding x by simp_all
    have a': "\<forall>p \<in> set ps. p \<in> M \<longrightarrow> fst p \<notin> insert row ur \<and> snd p \<notin> insert col uc"
    proof (intro ballI impI)
      fix p assume p: "p \<in> set ps" and pM: "p \<in> M"
      from Cons.prems(2) p pM have old: "fst p \<notin> ur \<and> snd p \<notin> uc" by simp
      have "p \<noteq> x" using p xnot by blast
      with assms(4)[rule_format, OF pM True] have "\<not> (fst p = fst x \<or> snd p = snd x)" by blast
      with old show "fst p \<notin> insert row ur \<and> snd p \<notin> insert col uc" unfolding x by simp
    qed
    have b': "\<forall>p \<in> set ps. p \<notin> M \<longrightarrow>
           fst p \<in> insert row ur \<or> snd p \<in> insert col uc \<or>
           (\<exists>q \<in> M \<inter> set ps. (fst q = fst p \<or> snd q = snd p) \<and> precedes D q p)"
    proof (intro ballI impI)
      fix p assume p: "p \<in> set ps" and pM: "p \<notin> M"
      from Cons.prems(3) p pM have
        "fst p \<in> ur \<or> snd p \<in> uc \<or>
           (\<exists>q \<in> M \<inter> set (x # ps). (fst q = fst p \<or> snd q = snd p) \<and> precedes D q p)"
        by simp
      then consider "fst p \<in> ur \<or> snd p \<in> uc"
        | q where "q \<in> M" "q \<in> set (x # ps)" "fst q = fst p \<or> snd q = snd p" "precedes D q p"
        by blast
      then show "fst p \<in> insert row ur \<or> snd p \<in> insert col uc \<or>
           (\<exists>q \<in> M \<inter> set ps. (fst q = fst p \<or> snd q = snd p) \<and> precedes D q p)"
      proof cases
        case 1
        then show ?thesis by blast
      next
        case 2
        show ?thesis
        proof (cases "q = x")
          case True
          with 2(3) show ?thesis unfolding x by auto
        next
          case False
          with 2(2) have "q \<in> set ps" by simp
          with 2 show ?thesis by blast
        qed
      qed
    qed
    have ih: "set (accept_free ps (insert row ur) (insert col uc)) = M \<inter> set ps"
      using s a' b' by (rule Cons.IH)
    have "accept_free (x # ps) ur uc = x # accept_free ps (insert row ur) (insert col uc)"
      unfolding x using free by simp
    then show ?thesis using ih True by auto
  next
    case False
    from Cons.prems(3) False have
      "fst x \<in> ur \<or> snd x \<in> uc \<or>
         (\<exists>q \<in> M \<inter> set (x # ps). (fst q = fst x \<or> snd q = snd x) \<and> precedes D q x)"
      by simp
    then consider "fst x \<in> ur \<or> snd x \<in> uc"
      | q where "q \<in> M" "q \<in> set (x # ps)" "precedes D q x"
      by blast
    then have blocked: "row \<in> ur \<or> col \<in> uc"
    proof cases
      case 1
      then show ?thesis unfolding x by simp
    next
      case 2
      from 2(1) False have "q \<noteq> x" by blast
      with 2(2) have "q \<in> set ps" by simp
      with xz have "precedes D x q" by blast
      with 2(3) precedes_asym[of D x q] show ?thesis by blast
    qed
    have a': "\<forall>p \<in> set ps. p \<in> M \<longrightarrow> fst p \<notin> ur \<and> snd p \<notin> uc"
      using Cons.prems(2) by simp
    have b': "\<forall>p \<in> set ps. p \<notin> M \<longrightarrow>
           fst p \<in> ur \<or> snd p \<in> uc \<or>
           (\<exists>q \<in> M \<inter> set ps. (fst q = fst p \<or> snd q = snd p) \<and> precedes D q p)"
    proof (intro ballI impI)
      fix p assume p: "p \<in> set ps" and pM: "p \<notin> M"
      from Cons.prems(3) p pM have
        "fst p \<in> ur \<or> snd p \<in> uc \<or>
           (\<exists>q \<in> M \<inter> set (x # ps). (fst q = fst p \<or> snd q = snd p) \<and> precedes D q p)"
        by simp
      then consider "fst p \<in> ur \<or> snd p \<in> uc"
        | q where "q \<in> M" "q \<in> set (x # ps)" "fst q = fst p \<or> snd q = snd p" "precedes D q p"
        by blast
      then show "fst p \<in> ur \<or> snd p \<in> uc \<or>
           (\<exists>q \<in> M \<inter> set ps. (fst q = fst p \<or> snd q = snd p) \<and> precedes D q p)"
      proof cases
        case 1
        then show ?thesis by blast
      next
        case 2
        from 2(1) False have "q \<noteq> x" by blast
        with 2(2) have "q \<in> set ps" by simp
        with 2 show ?thesis by blast
      qed
    qed
    have ih: "set (accept_free ps ur uc) = M \<inter> set ps"
      using s a' b' by (rule Cons.IH)
    have "accept_free (x # ps) ur uc = accept_free ps ur uc"
      unfolding x using blocked by simp
    then show ?thesis using ih False by auto
  qed
qed

lemma accept_free_rejected:
  assumes "sorted_wrt (precedes D) ps" and "p \<in> set ps" and "p \<notin> set (accept_free ps ur uc)"
  shows "fst p \<in> ur \<or> snd p \<in> uc \<or>
     (\<exists>q \<in> set (accept_free ps ur uc). (fst q = fst p \<or> snd q = snd p) \<and> precedes D q p)"
  using assms
proof (induction ps arbitrary: ur uc)
  case Nil
  then show ?case by simp
next
  case (Cons x ps)
  obtain row col where x: "x = (row, col)" by (cases x)
  from Cons.prems(1) have s: "sorted_wrt (precedes D) ps"
    and xz: "\<forall>z \<in> set ps. precedes D x z" by simp_all
  show ?case
  proof (cases "row \<in> ur \<or> col \<in> uc")
    case True
    then have e: "accept_free (x # ps) ur uc = accept_free ps ur uc" unfolding x by simp
    show ?thesis
    proof (cases "p = x")
      case True
      with \<open>row \<in> ur \<or> col \<in> uc\<close> have "fst p \<in> ur \<or> snd p \<in> uc" unfolding x by simp
      then show ?thesis by blast
    next
      case False
      with Cons.prems(2) have p: "p \<in> set ps" by simp
      from Cons.prems(3) have "p \<notin> set (accept_free ps ur uc)" unfolding e .
      from Cons.IH[OF s p this] show ?thesis unfolding e .
    qed
  next
    case False
    then have e: "accept_free (x # ps) ur uc =
        x # accept_free ps (insert row ur) (insert col uc)" unfolding x by simp
    from Cons.prems(3) have px: "p \<noteq> x"
      and pn: "p \<notin> set (accept_free ps (insert row ur) (insert col uc))" unfolding e by simp_all
    from px Cons.prems(2) have p: "p \<in> set ps" by simp
    from xz p have xp: "precedes D x p" by blast
    from Cons.IH[OF s p pn] consider "fst p = row \<or> snd p = col"
      | "fst p \<in> ur \<or> snd p \<in> uc"
      | q where "q \<in> set (accept_free ps (insert row ur) (insert col uc))"
          "fst q = fst p \<or> snd q = snd p" "precedes D q p"
      by blast
    then show ?thesis
    proof cases
      case 1
      then have "fst x = fst p \<or> snd x = snd p" unfolding x by auto
      with xp have "\<exists>q \<in> set (accept_free (x # ps) ur uc).
          (fst q = fst p \<or> snd q = snd p) \<and> precedes D q p"
        unfolding e by simp
      then show ?thesis by blast
    next
      case 2
      then show ?thesis by blast
    next
      case 3
      then have "\<exists>q \<in> set (accept_free (x # ps) ur uc).
          (fst q = fst p \<or> snd q = snd p) \<and> precedes D q p"
        unfolding e by auto
      then show ?thesis by blast
    qed
  qed
qed

lemma matches_matching:
  assumes "p \<in> set (matches s detections)" and "q \<in> set (matches s detections)"
    and "fst p = fst q \<or> snd p = snd q"
  shows "p = q"
proof -
  have dr: "distinct (map fst (matches s detections))"
    unfolding matches_def by (rule matched_pairs_distinct_rows)
  have dc: "distinct (map snd (matches s detections))"
    unfolding matches_def by (rule matched_pairs_distinct_cols)
  from dr have ir: "inj_on fst (set (matches s detections))" by (simp add: distinct_map)
  from dc have ic: "inj_on snd (set (matches s detections))" by (simp add: distinct_map)
  from assms(3) show ?thesis
  proof
    assume e: "fst p = fst q"
    from ir e assms(1,2) show ?thesis by (rule inj_onD)
  next
    assume e: "snd p = snd q"
    from ic e assms(1,2) show ?thesis by (rule inj_onD)
  qed
qed

lemma matches_candidates:
  assumes "detections \<noteq> []"
  shows "set (matches s detections) \<subseteq> set (sorted_candidates (assoc_D s detections))"
proof
  fix p assume p: "p \<in> set (matches s detections)"
  obtain r c where rc: "p = (r, c)" by (cases p)
  from p matches_rows[of s detections] have r: "r < length (objects s)" unfolding rc by force
  from p matches_cols[OF assms, of s] have c: "c < length detections" unfolding rc by force
  show "p \<in> set (sorted_candidates (assoc_D s detections))"
    unfolding rc sorted_candidates_mem using r c by (simp add: assoc_D_row_length)
qed

lemma unused_rows_mem:
  "r \<in> set (unused_rows s detections) \<longleftrightarrow>
     r < length (objects s) \<and> r \<notin> fst ` set (matches s detections)"
  by (auto simp: unused_rows_def)

lemma own_row_precedes:
  assumes n: "detections \<noteq> []" and m: "(r, c0) \<in> set (matches s detections)"
    and c: "c < length detections" and ne: "c \<noteq> c0"
  shows "precedes (assoc_D s detections) (r, c0) (r, c)"
proof -
  let ?D = "assoc_D s detections"
  from matches_argmin[OF m] have r: "r < length (objects s)" and c0: "c0 = argmin (?D ! r)"
    by simp_all
  have row: "?D ! r \<noteq> []" using n r by (rule assoc_D_row_nonempty)
  have len: "length (?D ! r) = length detections" using r by (rule assoc_D_row_length)
  from c len have cl: "c < length (?D ! r)" by simp
  have le: "?D ! r ! c0 \<le> ?D ! r ! c" unfolding c0 using cl by (rule argmin_props(3)[OF row])
  show ?thesis
  proof (cases "?D ! r ! c0 < ?D ! r ! c")
    case True
    then show ?thesis by (simp add: precedes_def)
  next
    case False
    with le have eq: "?D ! r ! c0 = ?D ! r ! c" by simp
    have "\<not> c < c0"
    proof
      assume "c < c0"
      then have "c < argmin (?D ! r)" unfolding c0 .
      from argmin_props(4)[OF row this] eq show False unfolding c0 by simp
    qed
    with ne have "c0 < c" by simp
    with eq show ?thesis by (simp add: precedes_def)
  qed
qed

lemma near_D_single:
  "assoc_D near_tracks [det (0, -1, 2, 1)] = [[1], [81]]"
  by (simp add: assoc_D_def near_tracks_eq tracker_eval)

text \<open>A sufficient condition: distinct nearest detections, all within the gate.\<close>

lemma distinct_nearest_equals_global:
  assumes "detections \<noteq> []"
    and "inj_on (\<lambda>r. argmin (assoc_D s detections ! r)) {0..<length (objects s)}"
    and "\<forall>r < length (objects s). min_list (assoc_D s detections ! r) \<le> 2500"
  shows "set (matches s detections) = set (spec_global_greedy (assoc_D s detections))"
proof -
  let ?D = "assoc_D s detections"
  have inj: "inj_on (\<lambda>r. argmin (?D ! r)) {0..<length ?D}" using assms(2) by simp
  have ne: "\<forall>r < length ?D. ?D ! r \<noteq> []"
    using assoc_D_row_nonempty[OF assms(1), of _ s] by simp
  have "set (spec_global_greedy ?D) = {(r, argmin (?D ! r)) | r. r < length ?D}"
    using inj ne by (rule spec_global_greedy_argmin)
  also have "\<dots> = {(r, argmin (?D ! r)) | r. r < length (objects s)}" by simp
  also have "\<dots> = set (matches s detections)"
    using matches_argmin_all[OF assms] by simp
  finally show ?thesis by simp
qed

section \<open>Exit events\<close>

text \<open>
  C1 on a concrete run, with \<open>max_disappeared = 0\<close> and no frame skipping: the first
  frame shows a face, which is registered as \<open>FACE_0001\<close> and logged as entered; the
  second frame has no detection, so the track is removed. At the end of that call
  \<open>FACE_0001\<close> is entered, not exited and carried by no track, and the identity has been
  absent for \<open>max_disappeared + 1\<close> frames: C1 asks for one exit event and for the
  identity in the exited set. The run has logged the entry event only, and the exited
  set is empty: lines 174-176 look for the box among the tracks of the current
  mapping, where an identity that has just left is never found
  (\<open>exit_events_have_empty_id\<close>: the only identity an exit event can carry is \<open>""\<close>).
\<close>

theorem exit_event_missing:
  "run_frames (init_system [] 0 0) [frame_one_face True, frame_empty] =
     Inr \<lparr>frame_count = 2, skip_frames = 0,
          tracker = \<lparr>next_object_id = 1, objects = [], disappeared = [], max_disappeared = 0,
                     face_id_map = []\<rparr>,
          known_embeddings = [(''FACE_0001'', 7)],
          tracked_entries = [''FACE_0001''], tracked_exits = [], next_face_id = 2,
          db_events = [\<lparr>ev_face_id = ''FACE_0001'', ev_type = Entry, ev_bbox = (0, 0, 20, 20),
                        ev_ok = True\<rparr>]\<rparr>"
  by (simp add: system_eval tracker_eval)

section \<open>The entered mark and persistence failures\<close>

text \<open>
  C2, as stated, fails. In the first frame the \<open>log_event\<close> call for the entry of
  \<open>FACE_0001\<close> reports failure, and the identity is in the entered set all the same.
  Nothing is retried: after the track has been removed and the face is seen and
  recognized again, the log still holds the one failed call.
\<close>

theorem entered_despite_failed_log_counterexample:
  "process_frame (init_system [] 0 0) (frame_one_face False) =
     Inr \<lparr>frame_count = 1, skip_frames = 0,
          tracker = \<lparr>next_object_id = 1,
                     objects = [(0, \<lparr>centroid = (10, 10), bbox = (0, 0, 20, 20),
                                     face_id = Some ''FACE_0001''\<rparr>)],
                     disappeared = [(0, 0)], max_disappeared = 0,
                     face_id_map = [(0, ''FACE_0001'')]\<rparr>,
          known_embeddings = [(''FACE_0001'', 7)],
          tracked_entries = [''FACE_0001''], tracked_exits = [], next_face_id = 2,
          db_events = [\<lparr>ev_face_id = ''FACE_0001'', ev_type = Entry, ev_bbox = (0, 0, 20, 20),
                        ev_ok = False\<rparr>]\<rparr> \<and>
   run_frames (init_system [] 0 0) [frame_one_face False, frame_empty, frame_one_face True] =
     Inr \<lparr>frame_count = 3, skip_frames = 0,
          tracker = \<lparr>next_object_id = 2,
                     objects = [(1, \<lparr>centroid = (10, 10), bbox = (0, 0, 20, 20),
                                     face_id = Some ''FACE_0001''\<rparr>)],
                     disappeared = [(1, 0)], max_disappeared = 0,
                     face_id_map = [(1, ''FACE_0001'')]\<rparr>,
          known_embeddings = [(''FACE_0001'', 7)],
          tracked_entries = [''FACE_0001''], tracked_exits = [], next_face_id = 2,
          db_events = [\<lparr>ev_face_id = ''FACE_0001'', ev_type = Entry, ev_bbox = (0, 0, 20, 20),
                        ev_ok = False\<rparr>]\<rparr>"
  by (simp add: system_eval tracker_eval)

text \<open>
  C2, amended: in every \<open>process_frame\<close> call, the identities added to the entered set
  are exactly those for which the call logs an entry event, whatever \<open>log_event\<close>
  reports; and an entry event is logged only for an identity that was not in the
  entered set before the call, so an entry whose write failed is not logged again.
\<close>

theorem entered_mark_follows_log_call:
  "\<exists>new. db_events (sys_of (process_frame s f)) = db_events s @ new \<and>
      set (tracked_entries (sys_of (process_frame s f))) =
        set (tracked_entries s) \<union> entry_faces new \<and>
      (\<forall>e \<in> set new. ev_type e = Entry \<longrightarrow> ev_face_id e \<notin> set (tracked_entries s))"
proof -
  from process_frame_effect[of s f] obtain new where
    fe: "frame_effect s (sys_of (process_frame s f)) new" ..
  then have "db_events (sys_of (process_frame s f)) = db_events s @ new \<and>
      set (tracked_entries (sys_of (process_frame s f))) =
        set (tracked_entries s) \<union> entry_faces new \<and>
      (\<forall>e \<in> set new. ev_type e = Entry \<longrightarrow> ev_face_id e \<notin> set (tracked_entries s))"
    unfolding frame_effect_def by blast
  then show ?thesis ..
qed

theorem entered_mark_follows_log_call_witness:
  "\<exists>new. db_events (sys_of (process_frame (init_system [] 0 0) (frame_one_face False))) =
            db_events (init_system [] 0 0) @ new \<and>
          new = [\<lparr>ev_face_id = ''FACE_0001'', ev_type = Entry, ev_bbox = (0, 0, 20, 20),
                   ev_ok = False\<rparr>] \<and>
          set (tracked_entries (sys_of (process_frame (init_system [] 0 0) (frame_one_face False)))) =
            set (tracked_entries (init_system [] 0 0)) \<union> entry_faces new"
proof -
  let ?s = "init_system [] 0 0" and ?f = "frame_one_face False"
  from entered_mark_follows_log_call[of ?s ?f] obtain new where
    d: "db_events (sys_of (process_frame ?s ?f)) = db_events ?s @ new" and
    t: "set (tracked_entries (sys_of (process_frame ?s ?f))) =
        set (tracked_entries ?s) \<union> entry_faces new" by blast
  have "db_events (sys_of (process_frame ?s ?f)) =
      [\<lparr>ev_face_id = ''FACE_0001'', ev_type = Entry, ev_bbox = (0, 0, 20, 20), ev_ok = False\<rparr>]"
    by (simp add: system_eval tracker_eval sys_of_def)
  moreover have "db_events ?s = []" by (simp add: init_system_def)
  ultimately have n: "new = [\<lparr>ev_face_id = ''FACE_0001'', ev_type = Entry, ev_bbox = (0, 0, 20, 20),
                   ev_ok = False\<rparr>]" using d by simp
  from d n t show ?thesis by blast
qed

section \<open>Association of detections with tracks\<close>

text \<open>
  C3: when \<open>update\<close> is called with at least one track and at least one detection,
  it returns, and the association is the greedy per-row nearest-centroid matching.
  The rows (tracks, in dict order) are processed in ascending order of their minimum
  distance; the entry of \<open>D\<close> for a track and a detection is their squared centroid
  distance, above 2500 exactly when the Euclidean distance is above 50; the column a
  row is tried with is its first column of minimum distance. A pair (row, column) is
  matched exactly when the row is the first one, in that order, whose nearest column
  it is, and the distance is at most 50: a row whose column was consumed earlier, or
  whose minimum exceeds 50, stays unmatched. A matched track takes the centroid and
  the box of its detection and its counter is 0; an unmatched track ages by one and is
  removed when its counter then exceeds \<open>max_disappeared\<close>; every unmatched detection
  is a new track with a fresh id and counter 0; a detection farther than 50 pixels
  from every track is never matched (so it is one of the new tracks).
\<close>

theorem update_greedy_association:
  assumes "tracker_inv s" and "objects s \<noteq> []" and "detections \<noteq> []"
  shows
   "set (assoc_rows s detections) = {0..<length (objects s)} \<and>
    distinct (assoc_rows s detections) \<and>
    sorted (map (\<lambda>r. min_list (assoc_D s detections ! r)) (assoc_rows s detections)) \<and>
    (\<forall>r < length (objects s). \<forall>c < length detections.
        assoc_D s detections ! r ! c =
          dist_sq (centroid (snd (objects s ! r))) (centroid_of (det_bbox (detections ! c))) \<and>
        (assoc_D s detections ! r ! c > 2500 \<longleftrightarrow>
          euclid (centroid (snd (objects s ! r))) (centroid_of (det_bbox (detections ! c))) > 50) \<and>
        argmin (assoc_D s detections ! r) < length detections \<and>
        assoc_D s detections ! r ! argmin (assoc_D s detections ! r) \<le> assoc_D s detections ! r ! c) \<and>
    (\<forall>r c. (r, c) \<in> set (matches s detections) \<longleftrightarrow>
        find (\<lambda>r'. argmin (assoc_D s detections ! r') = c) (assoc_rows s detections) = Some r \<and>
        assoc_D s detections ! r ! c \<le> 2500) \<and>
    (\<exists>s'. update s detections = Inr s' \<and>
       (\<forall>r c. (r, c) \<in> set (matches s detections) \<longrightarrow>
          (\<exists>t. map_of (objects s) (map fst (objects s) ! r) = Some t \<and>
               map_of (objects s') (map fst (objects s) ! r) =
                 Some (t\<lparr>centroid := centroid_of (det_bbox (detections ! c)),
                         bbox := det_bbox (detections ! c)\<rparr>)) \<and>
          counter s' (map fst (objects s) ! r) = 0) \<and>
       (\<forall>r < length (objects s). r \<notin> fst ` set (matches s detections) \<longrightarrow>
          (if counter s (map fst (objects s) ! r) + 1 > max_disappeared s
           then map fst (objects s) ! r \<notin> fst ` set (objects s')
           else map_of (objects s') (map fst (objects s) ! r) =
                  map_of (objects s) (map fst (objects s) ! r) \<and>
                counter s' (map fst (objects s) ! r) = counter s (map fst (objects s) ! r) + 1)) \<and>
       (\<forall>c < length detections. c \<notin> snd ` set (matches s detections) \<longrightarrow>
          (\<exists>k. next_object_id s \<le> k \<and> k < next_object_id s' \<and>
               map_of (objects s') k =
                 Some \<lparr>centroid = centroid_of (det_bbox (detections ! c)),
                       bbox = det_bbox (detections ! c), face_id = None\<rparr> \<and>
               counter s' k = 0)) \<and>
       (\<forall>c < length detections.
          (\<forall>r < length (objects s).
             euclid (centroid (snd (objects s ! r))) (centroid_of (det_bbox (detections ! c))) > 50) \<longrightarrow>
          c \<notin> snd ` set (matches s detections)))"
proof -
  let ?D = "assoc_D s detections"
  let ?M = "matches s detections"
  let ?ids = "map fst (objects s)"
  let ?uc = "unused_cols s detections"
  note inv = assms(1) and o = assms(2) and n = assms(3)
  have d: "distinct ?ids" by (rule inv_fields(1)[OF inv])
  have rows: "set (assoc_rows s detections) = {0..<length (objects s)}"
    "distinct (assoc_rows s detections)"
    "sorted (map (\<lambda>r. min_list (?D ! r)) (assoc_rows s detections))"
    by (simp_all add: assoc_rows_sorted)
  have ent: "\<forall>r < length (objects s). \<forall>c < length detections.
        ?D ! r ! c =
          dist_sq (centroid (snd (objects s ! r))) (centroid_of (det_bbox (detections ! c))) \<and>
        (?D ! r ! c > 2500 \<longleftrightarrow>
          euclid (centroid (snd (objects s ! r))) (centroid_of (det_bbox (detections ! c))) > 50) \<and>
        argmin (?D ! r) < length detections \<and>
        ?D ! r ! argmin (?D ! r) \<le> ?D ! r ! c"
  proof (intro allI impI)
    fix r c assume r: "r < length (objects s)" and c: "c < length detections"
    have e: "?D ! r ! c =
          dist_sq (centroid (snd (objects s ! r))) (centroid_of (det_bbox (detections ! c)))"
      using r c by (rule assoc_D_entry)
    have ne: "?D ! r \<noteq> []" using n r by (rule assoc_D_row_nonempty)
    have len: "length (?D ! r) = length detections" using r by (rule assoc_D_row_length)
    from argmin_props(1)[OF ne] len have a: "argmin (?D ! r) < length detections" by simp
    from argmin_props(3)[OF ne, of c] len c have b: "?D ! r ! argmin (?D ! r) \<le> ?D ! r ! c" by simp
    from e a b show "?D ! r ! c =
          dist_sq (centroid (snd (objects s ! r))) (centroid_of (det_bbox (detections ! c))) \<and>
        (?D ! r ! c > 2500 \<longleftrightarrow>
          euclid (centroid (snd (objects s ! r))) (centroid_of (det_bbox (detections ! c))) > 50) \<and>
        argmin (?D ! r) < length detections \<and>
        ?D ! r ! argmin (?D ! r) \<le> ?D ! r ! c"
      by (simp add: euclid_gate_iff)
  qed
  have grd: "\<forall>r c. (r, c) \<in> set ?M \<longleftrightarrow>
        find (\<lambda>r'. argmin (?D ! r') = c) (assoc_rows s detections) = Some r \<and> ?D ! r ! c \<le> 2500"
    using matches_iff[OF n] by blast
  define s' where "s' = state_of (update s detections)"
  note ef = update_assoc_effects[OF inv o n, folded s'_def]
  have u: "update s detections = Inr s'" by (rule ef(1))
  have i': "tracker_inv s'" by (rule ef(2))
  have n': "next_object_id s' = next_object_id s + int (length ?uc)" by (rule ef(3))
  note hit = ef(6)[rule_format]
  note miss = ef(7)[rule_format]
  note new = ef(8)[rule_format]
  have A: "\<forall>r c. (r, c) \<in> set ?M \<longrightarrow>
          (\<exists>t. map_of (objects s) (?ids ! r) = Some t \<and>
               map_of (objects s') (?ids ! r) =
                 Some (t\<lparr>centroid := centroid_of (det_bbox (detections ! c)),
                         bbox := det_bbox (detections ! c)\<rparr>)) \<and>
          counter s' (?ids ! r) = 0"
  proof (intro allI impI)
    fix r c assume rc: "(r, c) \<in> set ?M"
    from matches_argmin[OF rc] have r: "r < length (objects s)" by (rule conjunct1)
    from rc have "snd (r, c) \<in> snd ` set ?M" by (rule imageI)
    then have "c \<in> {0..<length detections}" using matches_cols[OF n, of s] by auto
    then have c: "c < length detections" by simp
    from map_of_present[OF nth_keys_in[OF r]] obtain t where
      t: "map_of (objects s) (?ids ! r) = Some t" ..
    have ic: "input_centroids detections ! c = centroid_of (det_bbox (detections ! c))"
      "map det_bbox detections ! c = det_bbox (detections ! c)"
      using c by (simp_all add: input_centroids_def)
    from hit[OF rc] have h1: "map_of (objects s') (?ids ! r) =
          map_option (\<lambda>t. t\<lparr>centroid := input_centroids detections ! c,
                              bbox := map det_bbox detections ! c\<rparr>)
            (map_of (objects s) (?ids ! r))"
      and h2: "map_of (disappeared s') (?ids ! r) = Some 0" by blast+
    have "map_of (objects s') (?ids ! r) =
                 Some (t\<lparr>centroid := centroid_of (det_bbox (detections ! c)),
                         bbox := det_bbox (detections ! c)\<rparr>)"
      unfolding h1 t ic by simp
    moreover have "counter s' (?ids ! r) = 0" using h2 by (rule counter_present)
    ultimately have "map_of (objects s') (?ids ! r) =
                 Some (t\<lparr>centroid := centroid_of (det_bbox (detections ! c)),
                         bbox := det_bbox (detections ! c)\<rparr>)"
      and "counter s' (?ids ! r) = 0" by blast+
    with t show "(\<exists>t. map_of (objects s) (?ids ! r) = Some t \<and>
               map_of (objects s') (?ids ! r) =
                 Some (t\<lparr>centroid := centroid_of (det_bbox (detections ! c)),
                         bbox := det_bbox (detections ! c)\<rparr>)) \<and>
          counter s' (?ids ! r) = 0" by blast
  qed
  have B: "\<forall>r < length (objects s). r \<notin> fst ` set ?M \<longrightarrow>
          (if counter s (?ids ! r) + 1 > max_disappeared s
           then ?ids ! r \<notin> fst ` set (objects s')
           else map_of (objects s') (?ids ! r) = map_of (objects s) (?ids ! r) \<and>
                counter s' (?ids ! r) = counter s (?ids ! r) + 1)"
  proof (intro allI impI)
    fix r assume r: "r < length (objects s)" and nm: "r \<notin> fst ` set ?M"
    from unmatched_row_in[OF r nm] have "?ids ! r \<in> set (unmatched_ids s detections)" .
    from miss[OF this]
    show "if counter s (?ids ! r) + 1 > max_disappeared s
           then ?ids ! r \<notin> fst ` set (objects s')
           else map_of (objects s') (?ids ! r) = map_of (objects s) (?ids ! r) \<and>
                counter s' (?ids ! r) = counter s (?ids ! r) + 1"
      using map_of_None_iff[of "objects s'" "?ids ! r"]
      by (simp add: expired_def counter_def split: if_splits)
  qed
  have C: "\<forall>c < length detections. c \<notin> snd ` set ?M \<longrightarrow>
          (\<exists>k. next_object_id s \<le> k \<and> k < next_object_id s' \<and>
               map_of (objects s') k =
                 Some \<lparr>centroid = centroid_of (det_bbox (detections ! c)),
                       bbox = det_bbox (detections ! c), face_id = None\<rparr> \<and>
               counter s' k = 0)"
  proof (intro allI impI)
    fix c assume c: "c < length detections" and nm: "c \<notin> snd ` set ?M"
    then have "c \<in> set ?uc" by (simp add: unused_cols_def)
    then obtain i where i: "i < length ?uc" "?uc ! i = c" by (auto simp: in_set_conv_nth)
    from new[OF i(1)] i(2) c
    have "map_of (objects s') (next_object_id s + int i) =
                 Some \<lparr>centroid = centroid_of (det_bbox (detections ! c)),
                       bbox = det_bbox (detections ! c), face_id = None\<rparr>"
      and "counter s' (next_object_id s + int i) = 0"
      by (simp_all add: new_track_def input_centroids_def counter_def)
    moreover have "next_object_id s \<le> next_object_id s + int i"
      "next_object_id s + int i < next_object_id s'" using i(1) n' by simp_all
    ultimately show "\<exists>k. next_object_id s \<le> k \<and> k < next_object_id s' \<and>
               map_of (objects s') k =
                 Some \<lparr>centroid = centroid_of (det_bbox (detections ! c)),
                       bbox = det_bbox (detections ! c), face_id = None\<rparr> \<and>
               counter s' k = 0" by blast
  qed
  have E: "\<forall>c < length detections.
          (\<forall>r < length (objects s).
             euclid (centroid (snd (objects s ! r))) (centroid_of (det_bbox (detections ! c))) > 50) \<longrightarrow>
          c \<notin> snd ` set ?M"
  proof (intro allI impI notI)
    fix c assume c: "c < length detections"
      and far: "\<forall>r < length (objects s).
             euclid (centroid (snd (objects s ! r))) (centroid_of (det_bbox (detections ! c))) > 50"
      and "c \<in> snd ` set ?M"
    then obtain r where rc: "(r, c) \<in> set ?M" by auto
    from matches_argmin[OF rc] have r: "r < length (objects s)" and g: "?D ! r ! c \<le> 2500" by blast+
    from far r have "euclid (centroid (snd (objects s ! r))) (centroid_of (det_bbox (detections ! c))) > 50"
      by blast
    then have "?D ! r ! c > 2500" using assoc_D_entry[OF r c] by (simp add: euclid_gate_iff)
    with g show False by simp
  qed
  have X: "\<exists>s'. update s detections = Inr s' \<and>
       (\<forall>r c. (r, c) \<in> set ?M \<longrightarrow>
          (\<exists>t. map_of (objects s) (?ids ! r) = Some t \<and>
               map_of (objects s') (?ids ! r) =
                 Some (t\<lparr>centroid := centroid_of (det_bbox (detections ! c)),
                         bbox := det_bbox (detections ! c)\<rparr>)) \<and>
          counter s' (?ids ! r) = 0) \<and>
       (\<forall>r < length (objects s). r \<notin> fst ` set ?M \<longrightarrow>
          (if counter s (?ids ! r) + 1 > max_disappeared s
           then ?ids ! r \<notin> fst ` set (objects s')
           else map_of (objects s') (?ids ! r) = map_of (objects s) (?ids ! r) \<and>
                counter s' (?ids ! r) = counter s (?ids ! r) + 1)) \<and>
       (\<forall>c < length detections. c \<notin> snd ` set ?M \<longrightarrow>
          (\<exists>k. next_object_id s \<le> k \<and> k < next_object_id s' \<and>
               map_of (objects s') k =
                 Some \<lparr>centroid = centroid_of (det_bbox (detections ! c)),
                       bbox = det_bbox (detections ! c), face_id = None\<rparr> \<and>
               counter s' k = 0)) \<and>
       (\<forall>c < length detections.
          (\<forall>r < length (objects s).
             euclid (centroid (snd (objects s ! r))) (centroid_of (det_bbox (detections ! c))) > 50) \<longrightarrow>
          c \<notin> snd ` set ?M)"
    by (intro exI[of _ s'] conjI u A B C E)
  show ?thesis by (intro conjI rows ent grd X)
qed

theorem update_greedy_association_witness:
  "tracker_inv two_tracks \<and> objects two_tracks \<noteq> [] \<and> [det (1, 0, 3, 2)] \<noteq> [] \<and>
   matches two_tracks [det (1, 0, 3, 2)] = [(0, 0)] \<and>
   (\<exists>s'. update two_tracks [det (1, 0, 3, 2)] = Inr s' \<and>
      map_of (objects s') 0 = Some \<lparr>centroid = (2, 1), bbox = (1, 0, 3, 2), face_id = None\<rparr> \<and>
      counter s' 0 = 0 \<and> counter s' 1 = 1)"
proof -
  let ?d = "[det (1, 0, 3, 2)]"
  have h1: "tracker_inv two_tracks" by (rule two_tracks_inv)
  have h2: "objects two_tracks \<noteq> []" by (simp add: two_tracks_eq)
  have h3: "?d \<noteq> []" by simp
  note T = update_greedy_association[OF h1 h2 h3]
  note X = T[THEN conjunct2, THEN conjunct2, THEN conjunct2, THEN conjunct2, THEN conjunct2]
  from X obtain s' where P: "update two_tracks ?d = Inr s' \<and>
       (\<forall>r c. (r, c) \<in> set (matches two_tracks ?d) \<longrightarrow>
          (\<exists>t. map_of (objects two_tracks) (map fst (objects two_tracks) ! r) = Some t \<and>
               map_of (objects s') (map fst (objects two_tracks) ! r) =
                 Some (t\<lparr>centroid := centroid_of (det_bbox (?d ! c)),
                         bbox := det_bbox (?d ! c)\<rparr>)) \<and>
          counter s' (map fst (objects two_tracks) ! r) = 0) \<and>
       (\<forall>r < length (objects two_tracks). r \<notin> fst ` set (matches two_tracks ?d) \<longrightarrow>
          (if counter two_tracks (map fst (objects two_tracks) ! r) + 1 > max_disappeared two_tracks
           then map fst (objects two_tracks) ! r \<notin> fst ` set (objects s')
           else map_of (objects s') (map fst (objects two_tracks) ! r) =
                  map_of (objects two_tracks) (map fst (objects two_tracks) ! r) \<and>
                counter s' (map fst (objects two_tracks) ! r) =
                  counter two_tracks (map fst (objects two_tracks) ! r) + 1))"
    by (elim exE conjE) (intro that conjI)
  note u = P[THEN conjunct1]
  note A = P[THEN conjunct2, THEN conjunct1, rule_format, of 0 0]
  note B = P[THEN conjunct2, THEN conjunct2, rule_format, of 1]
  have m: "matches two_tracks ?d = [(0, 0)]" by (rule two_tracks_matches)
  have a: "map_of (objects s') 0 = Some \<lparr>centroid = (2, 1), bbox = (1, 0, 3, 2), face_id = None\<rparr>"
    and a': "counter s' 0 = 0"
    using A unfolding m by (auto simp: two_tracks_eq det_def centroid_of_def py_int_half_def)
  have b: "counter s' 1 = 1"
    using B unfolding m by (simp add: two_tracks_eq counter_def)
  from h1 h2 h3 m u a a' b show ?thesis by blast
qed

section \<open>Per-row greedy versus global greedy matching\<close>

text \<open>
  C4, as stated, fails. Tracks at (0, 0) and (10, 0), detections at (1, 0) and (30, 0),
  all within 50 pixels of each other: both tracks are nearest to the first detection.
  The source gives it to track 0 and leaves track 1 unmatched, since a row is only
  ever tried with its nearest column; the global greedy matching goes on to the
  candidate (track 1, detection 1) and accepts it.
\<close>

theorem per_row_greedy_counterexample:
  "assoc_D near_tracks [det (0, -1, 2, 1), det (29, -1, 31, 1)] = [[1, 900], [81, 400]] \<and>
   matches near_tracks [det (0, -1, 2, 1), det (29, -1, 31, 1)] = [(0, 0)] \<and>
   spec_global_greedy (assoc_D near_tracks [det (0, -1, 2, 1), det (29, -1, 31, 1)]) =
     [(0, 0), (1, 1)]"
proof -
  have m: "matches near_tracks [det (0, -1, 2, 1), det (29, -1, 31, 1)] = [(0, 0)]"
    unfolding matches_def assoc_rows_def near_D_shared by (simp add: argsort_def argmin_def)
  have g: "spec_global_greedy [[1, 900], [81, 400]] = [(0, 0), (1, 1)]"
    by (simp add: spec_global_greedy_def sorted_candidates_def candidates_def)
  from m g near_D_shared show ?thesis by simp
qed

text \<open>
  C4, amended: for every tracker with tracks and every non-empty list of detections,
  the pairs matched by the source's loop (\<open>matches\<close>, which \<open>match_loop_result\<close> shows
  to be what the loop accepts) are the pairs of the global greedy matching if and only
  if no track that the source leaves unmatched has an alternative: every detection is
  matched by the source to a track that is strictly nearer to it than the unmatched
  track, or as near and with a smaller row index. So the two agree when two tracks
  contend for a single detection within the gate (the second track finds the column
  consumed and is skipped, and the global matching has nothing left to give it), and
  they differ as soon as an unmatched track is left with a detection that is free or
  held by a track farther away, or beyond the gate.
\<close>

theorem per_row_greedy_equals_global_iff:
  assumes "detections \<noteq> []"
  shows "set (matches s detections) = set (spec_global_greedy (assoc_D s detections)) \<longleftrightarrow>
     no_free_alternative s detections"
proof
  let ?D = "assoc_D s detections"
  let ?M = "set (matches s detections)"
  let ?ps = "sorted_candidates ?D"
  have sorted: "sorted_wrt (precedes ?D) ?ps" by (rule sorted_candidates_precedes)
  have sub: "?M \<subseteq> set ?ps" using assms by (rule matches_candidates)
  {
    assume eq: "?M = set (spec_global_greedy ?D)"
    show "no_free_alternative s detections"
      unfolding no_free_alternative_def
    proof (intro ballI)
      fix r c assume r: "r \<in> set (unused_rows s detections)"
        and c: "c \<in> set [0..<length detections]"
      from r have rl: "r < length (objects s)" and rn: "r \<notin> fst ` ?M"
        unfolding unused_rows_mem by simp_all
      from c have cl: "c < length detections" by simp
      have pin: "(r, c) \<in> set ?ps"
        unfolding sorted_candidates_mem using rl cl by (simp add: assoc_D_row_length)
      have "(r, c) \<notin> ?M" using rn by force
      then have pout: "(r, c) \<notin> set (accept_free ?ps {} {})"
        unfolding eq spec_global_greedy_def .
      from accept_free_rejected[OF sorted pin pout] obtain q where
        q: "q \<in> set (accept_free ?ps {} {})" and sh: "fst q = r \<or> snd q = c"
        and pr: "precedes ?D q (r, c)" by auto
      from q have qM: "q \<in> ?M" unfolding eq spec_global_greedy_def .
      obtain w c' where wc: "q = (w, c')" by (cases q)
      from qM rn have "w \<noteq> r" unfolding wc by force
      with sh have c': "c' = c" unfolding wc by simp
      from qM matches_rows[of s detections] have wl: "w < length (objects s)"
        unfolding wc by force
      from pr \<open>w \<noteq> r\<close> have "?D ! w ! c < ?D ! r ! c \<or> (?D ! w ! c = ?D ! r ! c \<and> w < r)"
        unfolding wc c' precedes_def by auto
      with qM wl show "\<exists>w \<in> set [0..<length (objects s)]. (w, c) \<in> ?M \<and>
          (?D ! w ! c < ?D ! r ! c \<or> (?D ! w ! c = ?D ! r ! c \<and> w < r))"
        unfolding wc c' by auto
    qed
  }
  {
    assume h: "no_free_alternative s detections"
    have a: "\<forall>p \<in> set ?ps. p \<in> ?M \<longrightarrow> fst p \<notin> {} \<and> snd p \<notin> {}" by simp
    have b: "\<forall>p \<in> set ?ps. p \<notin> ?M \<longrightarrow> fst p \<in> {} \<or> snd p \<in> {} \<or>
        (\<exists>q \<in> ?M \<inter> set ?ps. (fst q = fst p \<or> snd q = snd p) \<and> precedes ?D q p)"
    proof (intro ballI impI)
      fix p assume p: "p \<in> set ?ps" and pn: "p \<notin> ?M"
      obtain r c where rc: "p = (r, c)" by (cases p)
      from p have rl: "r < length (objects s)" and "c < length (?D ! r)"
        unfolding rc sorted_candidates_mem by simp_all
      then have cl: "c < length detections" by (simp add: assoc_D_row_length)
      have "\<exists>q \<in> ?M \<inter> set ?ps. (fst q = fst p \<or> snd q = snd p) \<and> precedes ?D q p"
      proof (cases "r \<in> fst ` ?M")
        case True
        then obtain c0 where m: "(r, c0) \<in> ?M" by force
        with pn have "c \<noteq> c0" unfolding rc by blast
        from own_row_precedes[OF assms m cl this]
        have "precedes ?D (r, c0) p" unfolding rc .
        moreover from m sub have "(r, c0) \<in> ?M \<inter> set ?ps" by blast
        ultimately show ?thesis unfolding rc by force
      next
        case False
        with rl have "r \<in> set (unused_rows s detections)" unfolding unused_rows_mem by simp
        moreover have "c \<in> set [0..<length detections]" using cl by simp
        ultimately obtain w where w: "(w, c) \<in> ?M"
          and d: "?D ! w ! c < ?D ! r ! c \<or> (?D ! w ! c = ?D ! r ! c \<and> w < r)"
          using h unfolding no_free_alternative_def by blast
        from d have "precedes ?D (w, c) p" unfolding rc precedes_def by auto
        moreover from w sub have "(w, c) \<in> ?M \<inter> set ?ps" by blast
        ultimately show ?thesis unfolding rc by force
      qed
      then show "fst p \<in> {} \<or> snd p \<in> {} \<or>
        (\<exists>q \<in> ?M \<inter> set ?ps. (fst q = fst p \<or> snd q = snd p) \<and> precedes ?D q p)"
        by blast
    qed
    have c: "\<forall>p \<in> ?M. \<forall>q \<in> ?M. fst p = fst q \<or> snd p = snd q \<longrightarrow> p = q"
      using matches_matching by blast
    have "set (accept_free ?ps {} {}) = ?M \<inter> set ?ps"
      using sorted a b c by (rule accept_free_stable)
    also have "\<dots> = ?M" using sub by blast
    finally show "?M = set (spec_global_greedy ?D)" unfolding spec_global_greedy_def by simp
  }
qed

theorem per_row_greedy_equals_global_iff_witness:
  "[det (0, -1, 2, 1)] \<noteq> [] \<and>
   assoc_D near_tracks [det (0, -1, 2, 1)] = [[1], [81]] \<and>
   matches near_tracks [det (0, -1, 2, 1)] = [(0, 0)] \<and>
   unused_rows near_tracks [det (0, -1, 2, 1)] = [1] \<and>
   no_free_alternative near_tracks [det (0, -1, 2, 1)] \<and>
   set (spec_global_greedy (assoc_D near_tracks [det (0, -1, 2, 1)])) = {(0, 0)} \<and>
   [det (0, -1, 2, 1), det (29, -1, 31, 1)] \<noteq> [] \<and>
   unused_rows near_tracks [det (0, -1, 2, 1), det (29, -1, 31, 1)] = [1] \<and>
   \<not> no_free_alternative near_tracks [det (0, -1, 2, 1), det (29, -1, 31, 1)] \<and>
   set (matches near_tracks [det (0, -1, 2, 1), det (29, -1, 31, 1)]) \<noteq>
     set (spec_global_greedy (assoc_D near_tracks [det (0, -1, 2, 1), det (29, -1, 31, 1)]))"
proof -
  let ?d = "[det (0, -1, 2, 1)]"
  let ?e = "[det (0, -1, 2, 1), det (29, -1, 31, 1)]"
  have len: "length (objects near_tracks) = 2" by (simp add: near_tracks_eq)
  have two: "[0..<2] = [0, Suc 0]" by (simp add: upt_rec)
  have h: "?d \<noteq> []" by simp
  have m: "matches near_tracks ?d = [(0, 0)]"
    unfolding matches_def assoc_rows_def near_D_single by (simp add: argsort_def argmin_def)
  have u: "unused_rows near_tracks ?d = [1]"
    unfolding unused_rows_def m len two by simp
  have n: "no_free_alternative near_tracks ?d"
    unfolding no_free_alternative_def u m len two near_D_single by simp
  from per_row_greedy_equals_global_iff[OF h, of near_tracks] n
  have "set (matches near_tracks ?d) = set (spec_global_greedy (assoc_D near_tracks ?d))"
    by (rule iffD2)
  then have g: "set (spec_global_greedy (assoc_D near_tracks ?d)) = {(0, 0)}"
    unfolding m by simp
  have h': "?e \<noteq> []" by simp
  have m': "matches near_tracks ?e = [(0, 0)]"
    unfolding matches_def assoc_rows_def near_D_shared by (simp add: argsort_def argmin_def)
  have u': "unused_rows near_tracks ?e = [1]"
    unfolding unused_rows_def m' len two by simp
  have n': "\<not> no_free_alternative near_tracks ?e"
    unfolding no_free_alternative_def u' m' len two near_D_shared by simp
  have ne: "set (matches near_tracks ?e) \<noteq> set (spec_global_greedy (assoc_D near_tracks ?e))"
    using per_row_greedy_equals_global_iff[OF h', of near_tracks] n' by (simp only: simp_thms)
  show ?thesis by (intro conjI h near_D_single m u n g h' u' n' ne)
qed

section \<open>Track ids\<close>

text \<open>
  C5: \<open>register\<close> hands out \<open>next_object_id\<close> and increments it, \<open>deregister\<close> leaves it
  alone. Over any sequence of \<open>update\<close> calls the run returns, and the ids given to
  newly registered tracks, in order of registration, are the consecutive integers from
  the \<open>next_object_id\<close> at the start: strictly increasing, none of them an id in use at
  the start, none of them an id below \<open>next_object_id\<close> that is no longer in use. The id
  of a track that an \<open>update\<close> removes is not assigned by any later call and never
  appears in the mapping again.
\<close>

theorem track_ids_increasing_never_reused:
  assumes "tracker_inv s"
  shows
   "fst (register s c b) = next_object_id s \<and>
    next_object_id (snd (register s c b)) = next_object_id s + 1 \<and>
    next_object_id (state_of (deregister s object_id)) = next_object_id s \<and>
    (\<exists>s'. run_updates s frames = Inr s' \<and>
       assigned_ids s frames =
         map (\<lambda>i. next_object_id s + int i) [0..<nat (next_object_id s' - next_object_id s)] \<and>
       sorted_wrt (<) (assigned_ids s frames) \<and>
       (\<forall>k \<in> set (assigned_ids s frames). next_object_id s \<le> k \<and> k \<notin> fst ` set (objects s)) \<and>
       (\<forall>k. k < next_object_id s \<and> k \<notin> fst ` set (objects s) \<longrightarrow>
            k \<notin> set (assigned_ids s frames) \<and> k \<notin> fst ` set (objects s'))) \<and>
    (\<forall>k s1. update s detections = Inr s1 \<and> k \<in> fst ` set (objects s) \<and>
            k \<notin> fst ` set (objects s1) \<longrightarrow>
         k \<notin> set (assigned_ids s1 frames) \<and>
         (\<forall>s2. run_updates s1 frames = Inr s2 \<longrightarrow> k \<notin> fst ` set (objects s2)))"
proof -
  note inv = assms
  have A: "fst (register s c b) = next_object_id s"
    and B: "next_object_id (snd (register s c b)) = next_object_id s + 1" by simp_all
  have C: "next_object_id (state_of (deregister s object_id)) = next_object_id s"
    by (rule deregister_next)
  from run_updates_ids[OF inv, of frames] obtain s' where
    r: "run_updates s frames = Inr s'" and
    f: "assigned_ids s frames =
       map (\<lambda>i. next_object_id s + int i) [0..<nat (next_object_id s' - next_object_id s)]"
    by blast
  have srt: "sorted_wrt (<) (assigned_ids s frames)" unfolding f by (rule fresh_range_sorted)
  have fresh: "\<forall>k \<in> set (assigned_ids s frames). next_object_id s \<le> k \<and> k \<notin> fst ` set (objects s)"
  proof
    fix k assume "k \<in> set (assigned_ids s frames)"
    then have le: "next_object_id s \<le> k" unfolding f by auto
    then have "k \<notin> fst ` set (objects s)" using inv_fields(4)[OF inv, of k] by auto
    with le show "next_object_id s \<le> k \<and> k \<notin> fst ` set (objects s)" by simp
  qed
  have old: "\<forall>k. k < next_object_id s \<and> k \<notin> fst ` set (objects s) \<longrightarrow>
            k \<notin> set (assigned_ids s frames) \<and> k \<notin> fst ` set (objects s')"
    using run_updates_old_ids[OF inv] r by blast
  have D: "\<exists>s'. run_updates s frames = Inr s' \<and>
       assigned_ids s frames =
         map (\<lambda>i. next_object_id s + int i) [0..<nat (next_object_id s' - next_object_id s)] \<and>
       sorted_wrt (<) (assigned_ids s frames) \<and>
       (\<forall>k \<in> set (assigned_ids s frames). next_object_id s \<le> k \<and> k \<notin> fst ` set (objects s)) \<and>
       (\<forall>k. k < next_object_id s \<and> k \<notin> fst ` set (objects s) \<longrightarrow>
            k \<notin> set (assigned_ids s frames) \<and> k \<notin> fst ` set (objects s'))"
    by (intro exI[of _ s'] conjI r f srt fresh old)
  have E: "\<forall>k s1. update s detections = Inr s1 \<and> k \<in> fst ` set (objects s) \<and>
            k \<notin> fst ` set (objects s1) \<longrightarrow>
         k \<notin> set (assigned_ids s1 frames) \<and>
         (\<forall>s2. run_updates s1 frames = Inr s2 \<longrightarrow> k \<notin> fst ` set (objects s2))"
  proof (intro allI impI)
    fix k s1
    assume a: "update s detections = Inr s1 \<and> k \<in> fst ` set (objects s) \<and>
            k \<notin> fst ` set (objects s1)"
    from update_total[OF inv, of detections] a have i1: "tracker_inv s1"
      and le: "next_object_id s \<le> next_object_id s1" by auto
    from a inv_fields(4)[OF inv, of k] le have k1: "k < next_object_id s1" by simp
    from a have k2: "k \<notin> fst ` set (objects s1)" by simp
    from run_updates_old_ids[OF i1 k1 k2, of frames]
    show "k \<notin> set (assigned_ids s1 frames) \<and>
         (\<forall>s2. run_updates s1 frames = Inr s2 \<longrightarrow> k \<notin> fst ` set (objects s2))" by blast
  qed
  show ?thesis by (intro conjI A B C D E)
qed

theorem track_ids_increasing_never_reused_witness:
  "tracker_inv (init_tracker 0) \<and>
   assigned_ids (init_tracker 0) [[det (0, 0, 20, 20)], [], [det (0, 0, 20, 20)]] = [0, 1] \<and>
   (\<exists>s'. run_updates (init_tracker 0) [[det (0, 0, 20, 20)], [], [det (0, 0, 20, 20)]] = Inr s' \<and>
      sorted_wrt (<) (assigned_ids (init_tracker 0) [[det (0, 0, 20, 20)], [], [det (0, 0, 20, 20)]]))"
proof -
  have h: "tracker_inv (init_tracker 0)" by (rule init_inv)
  have a: "assigned_ids (init_tracker 0) [[det (0, 0, 20, 20)], [], [det (0, 0, 20, 20)]] = [0, 1]"
    by (simp add: tracker_eval)
  note T = track_ids_increasing_never_reused[OF h,
      of "(0, 0)" "(0, 0, 1, 1)" 0 "[[det (0, 0, 20, 20)], [], [det (0, 0, 20, 20)]]" "[]",
      THEN conjunct2, THEN conjunct2, THEN conjunct2, THEN conjunct1]
  from T have "\<exists>s'. run_updates (init_tracker 0) [[det (0, 0, 20, 20)], [], [det (0, 0, 20, 20)]] = Inr s' \<and>
      sorted_wrt (<) (assigned_ids (init_tracker 0) [[det (0, 0, 20, 20)], [], [det (0, 0, 20, 20)]])"
    by (elim exE conjE) (intro exI conjI)
  with h a show ?thesis by (intro conjI)
qed

section \<open>Entered and exited identities\<close>

text \<open>
  C6: both sets are empty when the orchestrator is built. If the exited set is within
  the entered set before a \<open>process_frame\<close> call, it is within it in the state the call
  leaves (whether it returns or raises), and both sets contain what they contained
  before; the same holds from any such state over any sequence of frames, so over a
  whole run the exited set is always a subset of the entered set and neither set
  loses an element.
\<close>

theorem exits_within_entries:
  "tracked_entries (init_system known skip md) = [] \<and>
   tracked_exits (init_system known skip md) = [] \<and>
   (set (tracked_exits s) \<subseteq> set (tracked_entries s) \<longrightarrow>
      set (tracked_exits (sys_of (process_frame s f))) \<subseteq>
        set (tracked_entries (sys_of (process_frame s f))) \<and>
      set (tracked_entries s) \<subseteq> set (tracked_entries (sys_of (process_frame s f))) \<and>
      set (tracked_exits s) \<subseteq> set (tracked_exits (sys_of (process_frame s f))) \<and>
      set (tracked_exits (sys_of (run_frames s fs))) \<subseteq>
        set (tracked_entries (sys_of (run_frames s fs))) \<and>
      set (tracked_entries s) \<subseteq> set (tracked_entries (sys_of (run_frames s fs))) \<and>
      set (tracked_exits s) \<subseteq> set (tracked_exits (sys_of (run_frames s fs))))"
proof (intro conjI impI)
  show "tracked_entries (init_system known skip md) = []"
    and "tracked_exits (init_system known skip md) = []" by (simp_all add: init_system_def)
next
  assume a: "set (tracked_exits s) \<subseteq> set (tracked_entries s)"
  from process_frame_sets[OF a, of f]
  show "set (tracked_exits (sys_of (process_frame s f))) \<subseteq>
        set (tracked_entries (sys_of (process_frame s f)))"
    and "set (tracked_entries s) \<subseteq> set (tracked_entries (sys_of (process_frame s f)))"
    and "set (tracked_exits s) \<subseteq> set (tracked_exits (sys_of (process_frame s f)))" .
  from run_frames_sets[OF a, of fs]
  show "set (tracked_exits (sys_of (run_frames s fs))) \<subseteq>
        set (tracked_entries (sys_of (run_frames s fs)))"
    and "set (tracked_entries s) \<subseteq> set (tracked_entries (sys_of (run_frames s fs)))"
    and "set (tracked_exits s) \<subseteq> set (tracked_exits (sys_of (run_frames s fs)))" by blast+
qed

theorem exits_within_entries_witness:
  "set (tracked_exits (init_system [] 0 0)) \<subseteq> set (tracked_entries (init_system [] 0 0)) \<and>
   tracked_entries (sys_of (run_frames (init_system [] 0 0) [frame_one_face True, frame_empty])) =
     [''FACE_0001''] \<and>
   set (tracked_exits (sys_of (run_frames (init_system [] 0 0) [frame_one_face True, frame_empty]))) \<subseteq>
     set (tracked_entries (sys_of (run_frames (init_system [] 0 0) [frame_one_face True, frame_empty])))"
proof -
  have h: "set (tracked_exits (init_system [] 0 0)) \<subseteq> set (tracked_entries (init_system [] 0 0))"
    by (simp add: init_system_def)
  note T = exits_within_entries[of "[]" 0 0 "init_system [] 0 0" "frame_one_face True"
      "[frame_one_face True, frame_empty]", THEN conjunct2, THEN conjunct2, rule_format, OF h]
  have e: "tracked_entries (sys_of (run_frames (init_system [] 0 0) [frame_one_face True, frame_empty])) =
     [''FACE_0001'']"
    unfolding run_one_face by (simp add: sys_of_def)
  from T have "set (tracked_exits (sys_of (run_frames (init_system [] 0 0) [frame_one_face True, frame_empty]))) \<subseteq>
     set (tracked_entries (sys_of (run_frames (init_system [] 0 0) [frame_one_face True, frame_empty])))"
    by blast
  with h e show ?thesis by (intro conjI)
qed

section \<open>Updates without detections\<close>

text \<open>
  C7: on a tracker as its methods leave it, \<open>update\<close> with an empty detection list
  returns, adds 1 to the disappearance counter of every track and removes exactly
  the tracks whose counter then exceeds \<open>max_disappeared\<close>; the others stay, in order.
  In the scenario with \<open>max_disappeared = 2\<close>, track 0 (centroid (10, 10)) is still
  present with counter 2 after two empty updates and absent after the third. After
  \<open>N \<ge> 1\<close> consecutive empty updates with \<open>N > max_disappeared\<close> no track is left.
\<close>

theorem update_empty_ages_and_removes:
  "(tracker_inv s \<longrightarrow>
      (\<exists>s'. update s [] = Inr s' \<and>
         objects s' = filter (\<lambda>p. counter s (fst p) + 1 \<le> max_disappeared s) (objects s) \<and>
         (\<forall>k \<in> fst ` set (objects s'). counter s' k = counter s k + 1) \<and>
         tracker_inv s')) \<and>
   (\<exists>s1 s3 s4.
      update (init_tracker 2) [det (0, 0, 20, 20)] = Inr s1 \<and>
      objects s1 = [(0, \<lparr>centroid = (10, 10), bbox = (0, 0, 20, 20), face_id = None\<rparr>)] \<and>
      run_updates s1 [[], []] = Inr s3 \<and> map fst (objects s3) = [0] \<and> counter s3 0 = 2 \<and>
      run_updates s1 [[], [], []] = Inr s4 \<and> 0 \<notin> fst ` set (objects s4)) \<and>
   (tracker_inv s \<and> int N > max_disappeared s \<and> 0 < N \<longrightarrow>
      (\<exists>s'. run_updates s (replicate N []) = Inr s' \<and> objects s' = []))"
proof (intro conjI impI)
  assume "tracker_inv s"
  from update_empty[OF this]
  show "\<exists>s'. update s [] = Inr s' \<and>
         objects s' = filter (\<lambda>p. counter s (fst p) + 1 \<le> max_disappeared s) (objects s) \<and>
         (\<forall>k \<in> fst ` set (objects s'). counter s' k = counter s k + 1) \<and>
         tracker_inv s'" by blast
next
  let ?s1 = "\<lparr>next_object_id = 1,
          objects = [(0, \<lparr>centroid = (10, 10), bbox = (0, 0, 20, 20), face_id = None\<rparr>)],
          disappeared = [(0, 0)], max_disappeared = 2, face_id_map = []\<rparr>"
  let ?s3 = "\<lparr>next_object_id = 1,
          objects = [(0, \<lparr>centroid = (10, 10), bbox = (0, 0, 20, 20), face_id = None\<rparr>)],
          disappeared = [(0, 2)], max_disappeared = 2, face_id_map = []\<rparr>"
  let ?s4 = "\<lparr>next_object_id = 1, objects = [], disappeared = [], max_disappeared = 2,
          face_id_map = []\<rparr>"
  have 1: "update (init_tracker 2) [det (0, 0, 20, 20)] = Inr ?s1" by (rule scenario_frame1)
  have 3: "run_updates ?s1 [[], []] = Inr ?s3"
    using scenario_frame3 unfolding run_updates.simps(2)[of "init_tracker 2"] 1 by simp
  have 4: "run_updates ?s1 [[], [], []] = Inr ?s4"
    using scenario_frame4 unfolding run_updates.simps(2)[of "init_tracker 2"] 1 by simp
  show "\<exists>s1 s3 s4.
      update (init_tracker 2) [det (0, 0, 20, 20)] = Inr s1 \<and>
      objects s1 = [(0, \<lparr>centroid = (10, 10), bbox = (0, 0, 20, 20), face_id = None\<rparr>)] \<and>
      run_updates s1 [[], []] = Inr s3 \<and> map fst (objects s3) = [0] \<and> counter s3 0 = 2 \<and>
      run_updates s1 [[], [], []] = Inr s4 \<and> 0 \<notin> fst ` set (objects s4)"
    apply (rule exI[of _ ?s1], rule exI[of _ ?s3], rule exI[of _ ?s4])
    using 1 3 4 by (simp add: counter_def)
next
  assume "tracker_inv s \<and> int N > max_disappeared s \<and> 0 < N"
  then have "tracker_inv s" "int N > max_disappeared s" "0 < N" by simp_all
  from updates_empty_all_removed[OF this]
  show "\<exists>s'. run_updates s (replicate N []) = Inr s' \<and> objects s' = []" by blast
qed

theorem update_empty_ages_and_removes_witness:
  "tracker_inv tracker_one \<and> int 31 > max_disappeared tracker_one \<and> (0::nat) < 31 \<and>
   (\<exists>s'. update tracker_one [] = Inr s' \<and>
      objects s' = [(0, \<lparr>centroid = (10, 10), bbox = (0, 0, 20, 20), face_id = None\<rparr>)] \<and>
      counter s' 0 = 1) \<and>
   (\<exists>s'. run_updates tracker_one (replicate 31 []) = Inr s' \<and> objects s' = [])"
proof -
  have i: "tracker_inv tracker_one" by (rule tracker_one_inv)
  have m: "int 31 > max_disappeared tracker_one" "(0::nat) < 31"
    by (simp_all add: tracker_one_def init_tracker_def)
  have o1: "objects tracker_one = [(0, \<lparr>centroid = (10, 10), bbox = (0, 0, 20, 20), face_id = None\<rparr>)]"
    and c1: "counter tracker_one 0 = 0" and m1: "max_disappeared tracker_one = 30"
    by (simp_all add: tracker_one_def init_tracker_def counter_def)
  from update_empty_ages_and_removes[of tracker_one 31] i m
  obtain s' s'' where
    u: "update tracker_one [] = Inr s'" and
    o: "objects s' = filter (\<lambda>p. counter tracker_one (fst p) + 1 \<le> max_disappeared tracker_one)
          (objects tracker_one)" and
    c: "\<forall>k \<in> fst ` set (objects s'). counter s' k = counter tracker_one k + 1" and
    r: "run_updates tracker_one (replicate 31 []) = Inr s''" "objects s'' = []"
    by blast
  have o': "objects s' = [(0, \<lparr>centroid = (10, 10), bbox = (0, 0, 20, 20), face_id = None\<rparr>)]"
    unfolding o by (simp add: o1 c1 m1)
  with c have "counter s' 0 = counter tracker_one 0 + 1" by simp
  then have c': "counter s' 0 = 1" by (simp add: c1)
  from i m u o' c' r show ?thesis by blast
qed

section \<open>assign\_face\_id on unknown and known track ids\<close>

text \<open>
  C8, as stated, fails: on a track id that is not in \<open>objects\<close>, \<open>assign_face_id\<close>
  raises KeyError only after it has written the identity into \<open>face_id_map\<close>, so the
  tracker is not left unchanged and \<open>get_face_id\<close> then answers for the unknown id.
\<close>

theorem assign_face_id_absent_counterexample:
  "assign_face_id (init_tracker 30) 7 ''FACE_0001'' =
     Inl (KeyError, (init_tracker 30)\<lparr>face_id_map := [(7, ''FACE_0001'')]\<rparr>) \<and>
   (init_tracker 30)\<lparr>face_id_map := [(7, ''FACE_0001'')]\<rparr> \<noteq> init_tracker 30 \<and>
   get_face_id (init_tracker 30) 7 = None \<and>
   get_face_id ((init_tracker 30)\<lparr>face_id_map := [(7, ''FACE_0001'')]\<rparr>) 7 = Some ''FACE_0001''"
  by (simp add: assign_face_id_def init_tracker_def get_face_id_def)

text \<open>
  C8, amended: for a track id that is not in \<open>objects\<close>, \<open>assign_face_id\<close> raises
  KeyError and leaves \<open>objects\<close>, the counters, \<open>next_object_id\<close> and
  \<open>max_disappeared\<close> unchanged, while \<open>face_id_map\<close> has recorded the identity under
  that id; for a present id it returns, the track carries the identity, every other
  track and the key order are unchanged, and \<open>get_face_id\<close> returns the identity.
\<close>

theorem assign_face_id_effect:
  "(map_of (objects s) object_id = None \<longrightarrow>
      (\<exists>s'. assign_face_id s object_id fid = Inl (KeyError, s') \<and>
            objects s' = objects s \<and> disappeared s' = disappeared s \<and>
            next_object_id s' = next_object_id s \<and> max_disappeared s' = max_disappeared s \<and>
            get_face_id s' object_id = Some fid \<and>
            (\<forall>k. k \<noteq> object_id \<longrightarrow> get_face_id s' k = get_face_id s k))) \<and>
   (\<forall>t. map_of (objects s) object_id = Some t \<longrightarrow>
      (\<exists>s'. assign_face_id s object_id fid = Inr s' \<and>
            map_of (objects s') object_id = Some (t\<lparr>face_id := Some fid\<rparr>) \<and>
            (\<forall>k. k \<noteq> object_id \<longrightarrow> map_of (objects s') k = map_of (objects s) k) \<and>
            map fst (objects s') = map fst (objects s) \<and>
            disappeared s' = disappeared s \<and>
            next_object_id s' = next_object_id s \<and> max_disappeared s' = max_disappeared s \<and>
            get_face_id s' object_id = Some fid \<and>
            (\<forall>k. k \<noteq> object_id \<longrightarrow> get_face_id s' k = get_face_id s k)))"
proof (intro conjI impI allI)
  assume "map_of (objects s) object_id = None"
  then show "\<exists>s'. assign_face_id s object_id fid = Inl (KeyError, s') \<and>
            objects s' = objects s \<and> disappeared s' = disappeared s \<and>
            next_object_id s' = next_object_id s \<and> max_disappeared s' = max_disappeared s \<and>
            get_face_id s' object_id = Some fid \<and>
            (\<forall>k. k \<noteq> object_id \<longrightarrow> get_face_id s' k = get_face_id s k)"
    by (simp add: assign_face_id_def get_face_id_def update_conv')
next
  fix t assume t: "map_of (objects s) object_id = Some t"
  then have "object_id \<in> fst ` set (objects s)"
    using map_of_None_iff[of "objects s" object_id] by simp
  then have "map fst (AList.update object_id (t\<lparr>face_id := Some fid\<rparr>) (objects s)) = map fst (objects s)"
    by (rule update_keys_present)
  with t show "\<exists>s'. assign_face_id s object_id fid = Inr s' \<and>
            map_of (objects s') object_id = Some (t\<lparr>face_id := Some fid\<rparr>) \<and>
            (\<forall>k. k \<noteq> object_id \<longrightarrow> map_of (objects s') k = map_of (objects s) k) \<and>
            map fst (objects s') = map fst (objects s) \<and>
            disappeared s' = disappeared s \<and>
            next_object_id s' = next_object_id s \<and> max_disappeared s' = max_disappeared s \<and>
            get_face_id s' object_id = Some fid \<and>
            (\<forall>k. k \<noteq> object_id \<longrightarrow> get_face_id s' k = get_face_id s k)"
    by (simp add: assign_face_id_def get_face_id_def update_conv')
qed

theorem assign_face_id_effect_witness:
  "map_of (objects tracker_one) 7 = None \<and>
   map_of (objects tracker_one) 0 = Some \<lparr>centroid = (10, 10), bbox = (0, 0, 20, 20), face_id = None\<rparr> \<and>
   (\<exists>s'. assign_face_id tracker_one 7 ''FACE_0001'' = Inl (KeyError, s') \<and>
         objects s' = objects tracker_one \<and> get_face_id s' 7 = Some ''FACE_0001'') \<and>
   (\<exists>s'. assign_face_id tracker_one 0 ''FACE_0001'' = Inr s' \<and>
         map_of (objects s') 0 =
           Some \<lparr>centroid = (10, 10), bbox = (0, 0, 20, 20), face_id = Some ''FACE_0001''\<rparr> \<and>
         get_face_id s' 0 = Some ''FACE_0001'')"
proof -
  have a: "map_of (objects tracker_one) 7 = None"
    by (simp add: tracker_one_def register_def init_tracker_def)
  have b: "map_of (objects tracker_one) 0 =
      Some \<lparr>centroid = (10, 10), bbox = (0, 0, 20, 20), face_id = None\<rparr>"
    by (simp add: tracker_one_def register_def init_tracker_def)
  from a assign_face_id_effect[of tracker_one 7 "''FACE_0001''"]
  have c: "\<exists>s'. assign_face_id tracker_one 7 ''FACE_0001'' = Inl (KeyError, s') \<and>
         objects s' = objects tracker_one \<and> get_face_id s' 7 = Some ''FACE_0001''"
    by blast
  from b assign_face_id_effect[of tracker_one 0 "''FACE_0001''"]
  have d: "\<exists>s'. assign_face_id tracker_one 0 ''FACE_0001'' = Inr s' \<and>
         map_of (objects s') 0 =
           Some \<lparr>centroid = (10, 10), bbox = (0, 0, 20, 20), face_id = Some ''FACE_0001''\<rparr> \<and>
         get_face_id s' 0 = Some ''FACE_0001''"
    by auto
  from a b c d show ?thesis by blast
qed


section \<open>First detections on an empty tracker\<close>

text \<open>
  C9, as stated, fails. The claim gives a new track the center of its detection's box as
  centroid. For the single detection with box (30, 10, 41, 21) on a new tracker, the
  center is (35.5, 15.5), and the track that \<open>update\<close> registers has the centroid
  (35, 15): the source truncates each coordinate to an integer.
\<close>

theorem centroid_not_center_counterexample:
  "update (init_tracker 30) [det (30, 10, 41, 21)] =
     Inr \<lparr>next_object_id = 1,
          objects = [(0, \<lparr>centroid = (35, 15), bbox = (30, 10, 41, 21), face_id = None\<rparr>)],
          disappeared = [(0, 0)], max_disappeared = 30, face_id_map = []\<rparr> \<and>
   spec_bbox_center (30, 10, 41, 21) = (71 / 2, 31 / 2) \<and>
   (real_of_int 35, real_of_int 15) \<noteq> spec_bbox_center (30, 10, 41, 21)"
  by (simp add: tracker_eval spec_bbox_center_def)

text \<open>
  C9, amended: when \<open>update\<close> is called on a tracker without tracks and with at least one
  detection, every detection becomes a new track, in order and with consecutive ids
  from \<open>next_object_id\<close>, whose box is the detection's box, whose identity is unset,
  whose disappearance counter is 0, and whose centroid is the center of the box with
  each coordinate truncated towards zero to an integer, as \<open>int((x1 + x2) / 2)\<close>,
  \<open>int((y1 + y2) / 2)\<close> computes it: a coordinate of the centroid is the coordinate of
  the center exactly when the sum of the two box coordinates is even, it is within half
  a pixel of it always, and it is the integer quotient on non-negative sums.
\<close>

theorem update_first_detections:
  assumes "objects s = []" and "detections \<noteq> []"
  shows "\<exists>s'. update s detections = Inr s' \<and>
     objects s' =
       map (\<lambda>i. (next_object_id s + int i,
                 \<lparr>centroid = centroid_of (det_bbox (detections ! i)),
                  bbox = det_bbox (detections ! i), face_id = None\<rparr>))
           [0..<length detections] \<and>
     (\<forall>i < length detections. counter s' (next_object_id s + int i) = 0 \<and>
        map_of (disappeared s') (next_object_id s + int i) = Some 0) \<and>
     (\<forall>i < length detections. \<forall>x1 y1 x2 y2 cx cy.
        det_bbox (detections ! i) = (x1, y1, x2, y2) \<longrightarrow>
        centroid_of (det_bbox (detections ! i)) = (cx, cy) \<longrightarrow>
          \<bar>2 * cx - (x1 + x2)\<bar> \<le> 1 \<and> \<bar>2 * cy - (y1 + y2)\<bar> \<le> 1 \<and>
          (0 \<le> x1 + x2 \<longrightarrow> cx = (x1 + x2) div 2) \<and>
          (0 \<le> y1 + y2 \<longrightarrow> cy = (y1 + y2) div 2)) \<and>
     (\<forall>i < length detections.
        centroid_of (det_bbox (detections ! i)) =
          (py_int (fst (spec_bbox_center (det_bbox (detections ! i)))),
           py_int (snd (spec_bbox_center (det_bbox (detections ! i)))))) \<and>
     (\<forall>i < length detections. \<forall>x1 y1 x2 y2.
        det_bbox (detections ! i) = (x1, y1, x2, y2) \<longrightarrow>
          (real_of_int (fst (centroid_of (det_bbox (detections ! i)))) =
             fst (spec_bbox_center (det_bbox (detections ! i))) \<longleftrightarrow> even (x1 + x2)) \<and>
          (real_of_int (snd (centroid_of (det_bbox (detections ! i)))) =
             snd (spec_bbox_center (det_bbox (detections ! i))) \<longleftrightarrow> even (y1 + y2)))"
proof -
  let ?ics = "map (\<lambda>det. centroid_of (det_bbox det)) detections"
  let ?ibs = "map det_bbox detections"
  let ?s' = "register_cols ?ics ?ibs [0..<length detections] s"
  have u: "update s detections = Inr ?s'" using assms by (rule update_no_tracks)
  have "\<forall>k \<in> fst ` set (objects s). k < next_object_id s" using assms(1) by simp
  from register_cols_objects[OF this, of ?ics ?ibs "[0..<length detections]"]
  have o: "objects ?s' =
       map (\<lambda>i. (next_object_id s + int i,
                 \<lparr>centroid = centroid_of (det_bbox (detections ! i)),
                  bbox = det_bbox (detections ! i), face_id = None\<rparr>))
           [0..<length detections]"
    using assms(1) by (simp add: new_track_def)
  have d: "\<forall>i < length detections. counter ?s' (next_object_id s + int i) = 0 \<and>
        map_of (disappeared ?s') (next_object_id s + int i) = Some 0"
    by (simp add: counter_def register_cols_disappeared)
  have c: "\<forall>i < length detections. \<forall>x1 y1 x2 y2 cx cy.
        det_bbox (detections ! i) = (x1, y1, x2, y2) \<longrightarrow>
        centroid_of (det_bbox (detections ! i)) = (cx, cy) \<longrightarrow>
          \<bar>2 * cx - (x1 + x2)\<bar> \<le> 1 \<and> \<bar>2 * cy - (y1 + y2)\<bar> \<le> 1 \<and>
          (0 \<le> x1 + x2 \<longrightarrow> cx = (x1 + x2) div 2) \<and>
          (0 \<le> y1 + y2 \<longrightarrow> cy = (y1 + y2) div 2)"
    using py_int_half_near py_int_half_nonneg by (auto simp: centroid_of_def)
  have t: "\<forall>i < length detections.
        centroid_of (det_bbox (detections ! i)) =
          (py_int (fst (spec_bbox_center (det_bbox (detections ! i)))),
           py_int (snd (spec_bbox_center (det_bbox (detections ! i)))))"
    using centroid_of_trunc by blast
  have e: "\<forall>i < length detections. \<forall>x1 y1 x2 y2.
        det_bbox (detections ! i) = (x1, y1, x2, y2) \<longrightarrow>
          (real_of_int (fst (centroid_of (det_bbox (detections ! i)))) =
             fst (spec_bbox_center (det_bbox (detections ! i))) \<longleftrightarrow> even (x1 + x2)) \<and>
          (real_of_int (snd (centroid_of (det_bbox (detections ! i)))) =
             snd (spec_bbox_center (det_bbox (detections ! i))) \<longleftrightarrow> even (y1 + y2))"
    using centroid_of_exact_iff by blast
  show ?thesis by (intro exI[of _ ?s'] conjI u o d c t e)
qed

theorem update_first_detections_witness:
  "objects (init_tracker 30) = [] \<and> [det (0, 0, 20, 20), det (30, 10, 41, 21)] \<noteq> [] \<and>
   (\<exists>s'. update (init_tracker 30) [det (0, 0, 20, 20), det (30, 10, 41, 21)] = Inr s' \<and>
      objects s' =
        [(0, \<lparr>centroid = (10, 10), bbox = (0, 0, 20, 20), face_id = None\<rparr>),
         (1, \<lparr>centroid = (35, 15), bbox = (30, 10, 41, 21), face_id = None\<rparr>)] \<and>
      counter s' 0 = 0 \<and> counter s' 1 = 0) \<and>
   real_of_int (fst (centroid_of (0, 0, 20, 20))) = fst (spec_bbox_center (0, 0, 20, 20)) \<and>
   real_of_int (fst (centroid_of (30, 10, 41, 21))) \<noteq> fst (spec_bbox_center (30, 10, 41, 21))"
proof -
  let ?d = "[det (0, 0, 20, 20), det (30, 10, 41, 21)]"
  have a: "objects (init_tracker 30) = []" by (simp add: init_tracker_def)
  have b: "?d \<noteq> []" by simp
  from update_first_detections[OF a b] obtain s' where
    all: "update (init_tracker 30) ?d = Inr s' \<and>
     objects s' =
       map (\<lambda>i. (next_object_id (init_tracker 30) + int i,
                 \<lparr>centroid = centroid_of (det_bbox (?d ! i)),
                  bbox = det_bbox (?d ! i), face_id = None\<rparr>))
           [0..<length ?d] \<and>
     (\<forall>i < length ?d. counter s' (next_object_id (init_tracker 30) + int i) = 0 \<and>
        map_of (disappeared s') (next_object_id (init_tracker 30) + int i) = Some 0) \<and>
     (\<forall>i < length ?d. \<forall>x1 y1 x2 y2 cx cy.
        det_bbox (?d ! i) = (x1, y1, x2, y2) \<longrightarrow>
        centroid_of (det_bbox (?d ! i)) = (cx, cy) \<longrightarrow>
          \<bar>2 * cx - (x1 + x2)\<bar> \<le> 1 \<and> \<bar>2 * cy - (y1 + y2)\<bar> \<le> 1 \<and>
          (0 \<le> x1 + x2 \<longrightarrow> cx = (x1 + x2) div 2) \<and>
          (0 \<le> y1 + y2 \<longrightarrow> cy = (y1 + y2) div 2)) \<and>
     (\<forall>i < length ?d.
        centroid_of (det_bbox (?d ! i)) =
          (py_int (fst (spec_bbox_center (det_bbox (?d ! i)))),
           py_int (snd (spec_bbox_center (det_bbox (?d ! i)))))) \<and>
     (\<forall>i < length ?d. \<forall>x1 y1 x2 y2.
        det_bbox (?d ! i) = (x1, y1, x2, y2) \<longrightarrow>
          (real_of_int (fst (centroid_of (det_bbox (?d ! i)))) =
             fst (spec_bbox_center (det_bbox (?d ! i))) \<longleftrightarrow> even (x1 + x2)) \<and>
          (real_of_int (snd (centroid_of (det_bbox (?d ! i)))) =
             snd (spec_bbox_center (det_bbox (?d ! i))) \<longleftrightarrow> even (y1 + y2)))"
    by (rule exE)
  note u = all[THEN conjunct1]
  note o = all[THEN conjunct2, THEN conjunct1]
  note c = all[THEN conjunct2, THEN conjunct2, THEN conjunct1]
  note e = all[THEN conjunct2, THEN conjunct2, THEN conjunct2, THEN conjunct2, THEN conjunct2]
  have o': "objects s' =
        [(0, \<lparr>centroid = (10, 10), bbox = (0, 0, 20, 20), face_id = None\<rparr>),
         (1, \<lparr>centroid = (35, 15), bbox = (30, 10, 41, 21), face_id = None\<rparr>)]"
    unfolding o by (simp add: init_tracker_def det_def centroid_of_def py_int_half_def)
  have c': "counter s' 0 = 0" "counter s' 1 = 0"
    using c[rule_format, of 0] c[rule_format, of 1] by (simp_all add: init_tracker_def)
  have e0: "real_of_int (fst (centroid_of (0, 0, 20, 20))) = fst (spec_bbox_center (0, 0, 20, 20))"
    using e[rule_format, of 0 0 0 20 20] by (simp add: det_def)
  have e1: "real_of_int (fst (centroid_of (30, 10, 41, 21))) \<noteq>
      fst (spec_bbox_center (30, 10, 41, 21))"
    using e[rule_format, of 1 30 10 41 21] by (simp add: det_def)
  have ex: "\<exists>s'. update (init_tracker 30) ?d = Inr s' \<and>
      objects s' =
        [(0, \<lparr>centroid = (10, 10), bbox = (0, 0, 20, 20), face_id = None\<rparr>),
         (1, \<lparr>centroid = (35, 15), bbox = (30, 10, 41, 21), face_id = None\<rparr>)] \<and>
      counter s' 0 = 0 \<and> counter s' 1 = 0"
    by (intro exI[of _ s'] conjI u o' c')
  show ?thesis by (intro conjI a b ex e0 e1)
qed

section \<open>The two dicts keep the same keys\<close>

text \<open>
  C10, as stated, fails when \<open>max_disappeared\<close> is negative: the track \<open>update\<close> has just
  registered is returned with counter 0, above \<open>max_disappeared = -1\<close>.
\<close>

theorem counter_bound_counterexample:
  "update (init_tracker (- 1)) [det (0, 0, 20, 20)] =
     Inr \<lparr>next_object_id = 1,
          objects = [(0, \<lparr>centroid = (10, 10), bbox = (0, 0, 20, 20), face_id = None\<rparr>)],
          disappeared = [(0, 0)], max_disappeared = - 1, face_id_map = []\<rparr> \<and>
   \<not> counter \<lparr>next_object_id = 1,
          objects = [(0, \<lparr>centroid = (10, 10), bbox = (0, 0, 20, 20), face_id = None\<rparr>)],
          disappeared = [(0, 0)], max_disappeared = - 1, face_id_map = []\<rparr> 0
       \<le> max_disappeared \<lparr>next_object_id = 1,
          objects = [(0, \<lparr>centroid = (10, 10), bbox = (0, 0, 20, 20), face_id = None\<rparr>)],
          disappeared = [(0, 0)], max_disappeared = - 1, face_id_map = []\<rparr>"
  by (simp add: tracker_eval)

text \<open>
  C10, amended: the tracker \<open>__init__\<close> builds satisfies the invariant, and on a tracker
  that satisfies it (so that \<open>objects\<close> and \<open>disappeared\<close> have the same keys),
  \<open>register\<close>, \<open>deregister\<close> (whether it returns or raises) and \<open>update\<close> leave a
  tracker that satisfies it again; \<open>update\<close> returns, and when \<open>max_disappeared\<close> is not
  negative every track of the returned mapping has a counter of at most
  \<open>max_disappeared\<close>.
\<close>

theorem tracker_dicts_invariant:
  "tracker_inv (init_tracker md) \<and>
   (tracker_inv s \<longrightarrow>
      fst ` set (objects s) = fst ` set (disappeared s) \<and>
      tracker_inv (snd (register s c b)) \<and>
      tracker_inv (state_of (deregister s object_id)) \<and>
      (\<exists>s'. update s detections = Inr s' \<and> tracker_inv s' \<and>
         (0 \<le> max_disappeared s \<longrightarrow>
            (\<forall>k \<in> fst ` set (objects s'). counter s' k \<le> max_disappeared s'))))"
proof (intro conjI impI)
  show "tracker_inv (init_tracker md)" by (rule init_inv)
next
  assume inv: "tracker_inv s"
  show "fst ` set (objects s) = fst ` set (disappeared s)" by (rule inv_fields(3)[OF inv])
  show "tracker_inv (snd (register s c b))" using inv by (rule register_inv)
  show "tracker_inv (state_of (deregister s object_id))" using inv by (rule deregister_inv)
  from update_total[OF inv, of detections] obtain s' where
    u: "update s detections = Inr s'" and i: "tracker_inv s'" by blast
  have "0 \<le> max_disappeared s \<longrightarrow>
            (\<forall>k \<in> fst ` set (objects s'). counter s' k \<le> max_disappeared s')"
    using update_counter_bound[OF inv _ u] by blast
  with u i show "\<exists>s'. update s detections = Inr s' \<and> tracker_inv s' \<and>
         (0 \<le> max_disappeared s \<longrightarrow>
            (\<forall>k \<in> fst ` set (objects s'). counter s' k \<le> max_disappeared s'))" by blast
qed

theorem tracker_dicts_invariant_witness:
  "tracker_inv two_tracks \<and> 0 \<le> max_disappeared two_tracks \<and>
   fst ` set (objects two_tracks) = fst ` set (disappeared two_tracks) \<and>
   tracker_inv (snd (register two_tracks (5, 5) (0, 0, 10, 10))) \<and>
   tracker_inv (state_of (deregister two_tracks 0)) \<and>
   (\<exists>s'. update two_tracks [det (1, 0, 3, 2)] = Inr s' \<and> tracker_inv s' \<and>
      (\<forall>k \<in> fst ` set (objects s'). counter s' k \<le> max_disappeared s'))"
proof -
  have h: "tracker_inv two_tracks" by (rule two_tracks_inv)
  have m: "0 \<le> max_disappeared two_tracks" by (simp add: two_tracks_eq)
  note T = tracker_dicts_invariant[of 2 two_tracks "(5, 5)" "(0, 0, 10, 10)" 0 "[det (1, 0, 3, 2)]",
      THEN conjunct2, rule_format, OF h]
  from T m h show ?thesis by blast
qed

end
